theory Spec2Isabelle
  imports Complex_Main "HOL-Library.Word" "HOL-Library.Sublist"
begin

section \<open>JavaScript strings\<close>

text \<open>
  A JavaScript string is a sequence of UTF-16 code units. Source text that is ASCII is
  written as an Isabelle string literal and converted with \<open>js\<close>.
\<close>

type_synonym code_unit = "16 word"
type_synonym jstring = "code_unit list"

definition cu :: "char \<Rightarrow> code_unit" where
  "cu c = of_nat (of_char c)"

definition js :: "string \<Rightarrow> jstring" where
  "js s = map cu s"

text \<open>
  The class \<^verbatim>\<open>\s\<close> of a regular expression without the \<^verbatim>\<open>u\<close> flag: the white space
  and line terminator code points of ECMAScript (TAB, LF, VT, FF, CR, SP, NBSP, U+1680,
  U+2000 to U+200A, LS, PS, U+202F, U+205F, U+3000, U+FEFF).
\<close>

definition is_space :: "code_unit \<Rightarrow> bool" where
  "is_space c \<longleftrightarrow>
     c = 0x09 \<or> c = 0x0A \<or> c = 0x0B \<or> c = 0x0C \<or> c = 0x0D \<or> c = 0x20 \<or> c = 0xA0 \<or>
     c = 0x1680 \<or> (0x2000 \<le> c \<and> c \<le> 0x200A) \<or> c = 0x2028 \<or> c = 0x2029 \<or>
     c = 0x202F \<or> c = 0x205F \<or> c = 0x3000 \<or> c = 0xFEFF"

text \<open>The class \<^verbatim>\<open>[\n\r]\<close>.\<close>

definition is_newline :: "code_unit \<Rightarrow> bool" where
  "is_newline c \<longleftrightarrow> c = 0x0A \<or> c = 0x0D"

section \<open>Regular expressions\<close>

text \<open>
  The constructs the source's five regular expressions use. \<open>Star g r\<close> is \<^verbatim>\<open>r*\<close> when
  \<open>g\<close> (greedy) and \<^verbatim>\<open>r*?\<close> otherwise; \<open>Grp r\<close> is a capturing group. None of the
  expressions has an anchor, a look-around or a back reference, so a match at a position
  depends on the text from that position on only, and the \<^verbatim>\<open>m\<close> flag changes nothing.
\<close>

datatype regex =
    Eps
  | Cls "code_unit \<Rightarrow> bool"
  | Seq regex regex
  | Star bool regex
  | Opt regex
  | Grp regex

text \<open>The match state: the text captured by the group, if any, and the text left.\<close>

type_synonym mstate = "jstring option \<times> jstring"

text \<open>
  The backtracking matcher of ECMAScript, as the list of its outcomes in the order in
  which backtracking tries them: the match that \<^verbatim>\<open>exec\<close> reports is the first one. An
  iteration of \<open>Star\<close> or \<open>Opt\<close> that consumes nothing is rejected, as RepeatMatcher
  does. \<open>Opt r\<close> is \<^verbatim>\<open>r?\<close>.
\<close>

function ms :: "regex \<Rightarrow> mstate \<Rightarrow> mstate list" where
  "ms Eps st = [st]"
| "ms (Cls p) (c, s) = (case s of [] \<Rightarrow> [] | x # xs \<Rightarrow> if p x then [(c, xs)] else [])"
| "ms (Seq a b) st = concat (map (ms b) (ms a st))"
| "ms (Star g a) (c, s) =
     (let more = concat (map (ms (Star g a))
                   (filter (\<lambda>st'. length (snd st') < length s) (ms a (c, s))))
      in if g then more @ [(c, s)] else (c, s) # more)"
| "ms (Opt a) (c, s) = filter (\<lambda>st'. length (snd st') < length s) (ms a (c, s)) @ [(c, s)]"
| "ms (Grp a) (c, s) =
     map (\<lambda>st'. (Some (take (length s - length (snd st')) s), snd st')) (ms a (c, s))"
  by pat_completeness auto
termination
  by (relation "measures [\<lambda>(r, st). size r, \<lambda>(r, st). length (snd st)]") auto

text \<open>\<^verbatim>\<open>r+\<close> and \<^verbatim>\<open>r+?\<close>: one iteration, then \<open>Star\<close>.\<close>

definition Plus :: "bool \<Rightarrow> regex \<Rightarrow> regex" where
  "Plus g r = Seq r (Star g r)"

definition Lit :: "char \<Rightarrow> regex" where
  "Lit c = Cls (\<lambda>x. x = cu c)"

fun seqs :: "regex list \<Rightarrow> regex" where
  "seqs [] = Eps"
| "seqs (r # rs) = Seq r (seqs rs)"

definition lits :: "string \<Rightarrow> regex" where
  "lits s = seqs (map Lit s)"

text \<open>A match attempt at the start of the text: the capture and the text after the match.\<close>

definition exec :: "regex \<Rightarrow> jstring \<Rightarrow> mstate option" where
  "exec r s = (case ms r (None, s) of [] \<Rightarrow> None | st # _ \<Rightarrow> Some st)"

text \<open>
  \<^verbatim>\<open>String.prototype.replace\<close> with a global regular expression first collects the
  matches from left to right: at each position the match attempt either succeeds, and the
  search goes on after the match (one code unit further when the match is empty), or fails,
  and the search goes on one code unit further. \<open>scan\<close> cuts the text into the code units
  outside the matches and the matches (matched text and capture).
\<close>

datatype piece = Plain code_unit | Hit jstring "jstring option"

function scan :: "regex \<Rightarrow> jstring \<Rightarrow> piece list" where
  "scan r s =
     (case exec r s of
        Some (cap, rest) \<Rightarrow>
          if length rest < length s
          then Hit (take (length s - length rest) s) cap # scan r rest
          else Hit [] cap # (case s of [] \<Rightarrow> [] | x # xs \<Rightarrow> Plain x # scan r xs)
      | None \<Rightarrow> (case s of [] \<Rightarrow> [] | x # xs \<Rightarrow> Plain x # scan r xs))"
  by pat_completeness auto
termination
  by (relation "measure (\<lambda>(r, s). length s)") auto

declare scan.simps [simp del]

text \<open>Replacement by a fixed string (one without \<^verbatim>\<open>$\<close>).\<close>

definition replace_str :: "regex \<Rightarrow> jstring \<Rightarrow> jstring \<Rightarrow> jstring" where
  "replace_str r new s =
     concat (map (\<lambda>p. case p of Plain x \<Rightarrow> [x] | Hit m cap \<Rightarrow> new) (scan r s))"

text \<open>
  Replacement by a function: the function is called for the matches from left to right
  with the matched text and the capture; an exception it throws ends the call.
\<close>

datatype error =
    ModuleNotFound | SyntaxError | TypeError | RangeError | SystemError | EvalFailed

fun subst :: "(jstring \<Rightarrow> jstring option \<Rightarrow> error + jstring) \<Rightarrow> piece list \<Rightarrow> error + jstring" where
  "subst f [] = Inr []"
| "subst f (Plain x # ps) =
     (case subst f ps of Inl e \<Rightarrow> Inl e | Inr rest \<Rightarrow> Inr (x # rest))"
| "subst f (Hit m cap # ps) =
     (case f m cap of
        Inl e \<Rightarrow> Inl e
      | Inr new \<Rightarrow> (case subst f ps of Inl e \<Rightarrow> Inl e | Inr rest \<Rightarrow> Inr (new @ rest)))"

definition replace_fn ::
  "regex \<Rightarrow> (jstring \<Rightarrow> jstring option \<Rightarrow> error + jstring) \<Rightarrow> jstring \<Rightarrow> error + jstring" where
  "replace_fn r f s = subst f (scan r s)"

text \<open>
  \<open>no_start r pre rest\<close>: in the text \<open>pre @ rest\<close> no match of \<open>r\<close> starts at a position
  inside \<open>pre\<close>.
\<close>

fun no_start :: "regex \<Rightarrow> jstring \<Rightarrow> jstring \<Rightarrow> bool" where
  "no_start r [] rest = True"
| "no_start r (x # xs) rest = (exec r (x # xs @ rest) = None \<and> no_start r xs rest)"

text \<open>A text without any match of \<open>r\<close>, the position at its end included.\<close>

definition no_match :: "regex \<Rightarrow> jstring \<Rightarrow> bool" where
  "no_match r s \<longleftrightarrow> no_start r s [] \<and> exec r [] = None"

section \<open>The environment of the passes\<close>

text \<open>
  \<^verbatim>\<open>fs.readFileSync(path, 'utf-8')\<close> is a function from paths to the content read or the
  error thrown; the resolver of URLs is a function of the caller and may throw as well.
\<close>

type_synonym reader = "jstring \<Rightarrow> error + jstring"
type_synonym resolver = "jstring \<Rightarrow> error + jstring"

section \<open>Shortening of a resource\<close>

text \<open>\<^verbatim>\<open>/([\n\r]\s*)+/gm\<close> and \<^verbatim>\<open>/"/g\<close>\<close>

definition newline_re :: regex where
  "newline_re = Plus True (Grp (Seq (Cls is_newline) (Star True (Cls is_space))))"

definition quote_re :: regex where
  "quote_re = Lit (CHR 0x22)"

text \<open>
  \<^verbatim>\<open>content.replace(/([\n\r]\s*)+/gm, ' ').replace(/"/g, '\\"')\<close>, the expression both
  passes apply to the content of a resource.
\<close>

definition shorten :: "jstring \<Rightarrow> jstring" where
  "shorten content =
     replace_str quote_re [cu (CHR 0x5C), cu (CHR 0x22)] (replace_str newline_re (js '' '') content)"

section \<open>inlineTemplate\<close>

text \<open>\<^verbatim>\<open>/templateUrl:\s*'([^']+?\.html)'/g\<close>\<close>

definition templateUrl_re :: regex where
  "templateUrl_re =
     seqs [lits ''templateUrl:'', Star True (Cls is_space), Lit (CHR 0x27),
           Grp (Seq (Plus False (Cls (\<lambda>x. x \<noteq> cu (CHR 0x27)))) (lits ''.html'')),
           Lit (CHR 0x27)]"

text \<open>
  The replacement function of \<^verbatim>\<open>inlineTemplate\<close>. The group takes part in every match of
  the expression; a call without a capture would pass \<^verbatim>\<open>undefined\<close> on, which the model
  does not follow further.
\<close>

definition template_replacer :: "reader \<Rightarrow> resolver \<Rightarrow> jstring \<Rightarrow> jstring option \<Rightarrow> error + jstring" where
  "template_replacer readFileSync urlResolver m cap =
     (case cap of
        None \<Rightarrow> Inl TypeError
      | Some templateUrl \<Rightarrow>
          (case urlResolver templateUrl of
             Inl e \<Rightarrow> Inl e
           | Inr templateFile \<Rightarrow>
               (case readFileSync templateFile of
                  Inl e \<Rightarrow> Inl e
                | Inr templateContent \<Rightarrow>
                    Inr (js ''template: '' @ [cu (CHR 0x22)] @ shorten templateContent
                           @ [cu (CHR 0x22)]))))"

definition inlineTemplate :: "reader \<Rightarrow> resolver \<Rightarrow> jstring \<Rightarrow> error + jstring" where
  "inlineTemplate readFileSync urlResolver content =
     replace_fn templateUrl_re (template_replacer readFileSync urlResolver) content"

section \<open>inlineStyle\<close>

text \<open>\<^verbatim>\<open>/styleUrls:\s*(\[[\s\S]*?\])/gm\<close>\<close>

definition styleUrls_re :: regex where
  "styleUrls_re =
     seqs [lits ''styleUrls:'', Star True (Cls is_space),
           Grp (seqs [Lit (CHR 0x5B), Star False (Cls (\<lambda>x. True)), Lit (CHR 0x5D)])]"

text \<open>\<^verbatim>\<open>urls.map(...)\<close>: the function is applied from left to right, the first exception ends it.\<close>

fun map_e :: "('a \<Rightarrow> error + 'b) \<Rightarrow> 'a list \<Rightarrow> error + 'b list" where
  "map_e f [] = Inr []"
| "map_e f (x # xs) =
     (case f x of
        Inl e \<Rightarrow> Inl e
      | Inr y \<Rightarrow> (case map_e f xs of Inl e \<Rightarrow> Inl e | Inr ys \<Rightarrow> Inr (y # ys)))"

text \<open>\<^verbatim>\<open>Array.prototype.join\<close>\<close>

fun join :: "jstring \<Rightarrow> jstring list \<Rightarrow> jstring" where
  "join sep [] = []"
| "join sep [x] = x"
| "join sep (x # y # ys) = x @ sep @ join sep (y # ys)"

definition style_of :: "reader \<Rightarrow> resolver \<Rightarrow> jstring \<Rightarrow> error + jstring" where
  "style_of readFileSync urlResolver styleUrl =
     (case urlResolver styleUrl of
        Inl e \<Rightarrow> Inl e
      | Inr styleFile \<Rightarrow>
          (case readFileSync styleFile of
             Inl e \<Rightarrow> Inl e
           | Inr styleContent \<Rightarrow> Inr ([cu (CHR 0x22)] @ shorten styleContent @ [cu (CHR 0x22)])))"

text \<open>
  The replacement function of \<^verbatim>\<open>inlineStyle\<close>. \<open>ev\<close> stands for \<^verbatim>\<open>eval\<close> on the captured
  text: the list of strings it yields, or the exception thrown (by \<^verbatim>\<open>eval\<close>, or later
  by the use of a value that is not an array of strings).
\<close>

definition style_replacer ::
  "(jstring \<Rightarrow> error + jstring list) \<Rightarrow> reader \<Rightarrow> resolver \<Rightarrow> jstring \<Rightarrow> jstring option \<Rightarrow> error + jstring" where
  "style_replacer ev readFileSync urlResolver m cap =
     (case cap of
        None \<Rightarrow> Inl TypeError
      | Some styleUrls \<Rightarrow>
          (case ev styleUrls of
             Inl e \<Rightarrow> Inl e
           | Inr urls \<Rightarrow>
               (case map_e (style_of readFileSync urlResolver) urls of
                  Inl e \<Rightarrow> Inl e
                | Inr styles \<Rightarrow>
                    Inr (js ''styles: ['' @ join [cu CHR '','', 0x0A] styles @ js '']''))))"

definition inlineStyle ::
  "(jstring \<Rightarrow> error + jstring list) \<Rightarrow> reader \<Rightarrow> resolver \<Rightarrow> jstring \<Rightarrow> error + jstring" where
  "inlineStyle ev readFileSync urlResolver content =
     replace_fn styleUrls_re (style_replacer ev readFileSync urlResolver) content"

text \<open>
  \<^verbatim>\<open>eval\<close> on the array literals the pass is written for: string literals in single or
  double quotes without escape sequences, separated by commas, with white space between
  the tokens and an optional trailing comma. On any other text the model answers
  \<open>EvalFailed\<close>: the text is not JavaScript (a \<^verbatim>\<open>SyntaxError\<close>), or it is JavaScript
  that this model of \<^verbatim>\<open>eval\<close> does not cover.
\<close>

datatype lit_state =
    Open | First | In_string code_unit jstring | After | Next | Closed

fun array_lit :: "lit_state \<Rightarrow> jstring list \<Rightarrow> jstring \<Rightarrow> jstring list option" where
  "array_lit st acc [] = (if st = Closed then Some (rev acc) else None)"
| "array_lit Open acc (x # xs) =
     (if is_space x then array_lit Open acc xs
      else if x = cu (CHR 0x5B) then array_lit First acc xs else None)"
| "array_lit First acc (x # xs) =
     (if is_space x then array_lit First acc xs
      else if x = cu (CHR 0x5D) then array_lit Closed acc xs
      else if x = cu (CHR 0x27) \<or> x = cu (CHR 0x22) then array_lit (In_string x []) acc xs
      else None)"
| "array_lit (In_string q str) acc (x # xs) =
     (if x = q then array_lit After (rev str # acc) xs
      else if x = cu (CHR 0x5C) \<or> x = 0x0A \<or> x = 0x0D \<or> x = 0x2028 \<or> x = 0x2029 then None
      else array_lit (In_string q (x # str)) acc xs)"
| "array_lit After acc (x # xs) =
     (if is_space x then array_lit After acc xs
      else if x = cu CHR '','' then array_lit Next acc xs
      else if x = cu (CHR 0x5D) then array_lit Closed acc xs
      else None)"
| "array_lit Next acc (x # xs) =
     (if is_space x then array_lit Next acc xs
      else if x = cu (CHR 0x5D) then array_lit Closed acc xs
      else if x = cu (CHR 0x27) \<or> x = cu (CHR 0x22) then array_lit (In_string x []) acc xs
      else None)"
| "array_lit Closed acc (x # xs) = (if is_space x then array_lit Closed acc xs else None)"

definition js_eval :: "jstring \<Rightarrow> error + jstring list" where
  "js_eval src = (case array_lit Open [] src of None \<Rightarrow> Inl EvalFailed | Some urls \<Rightarrow> Inr urls)"

section \<open>removeModuleId\<close>

text \<open>\<^verbatim>\<open>/\s*moduleId:\s*module\.id\s*,?\s*/gm\<close>\<close>

definition moduleId_re :: regex where
  "moduleId_re =
     seqs [Star True (Cls is_space), lits ''moduleId:'', Star True (Cls is_space),
           lits ''module.id'', Star True (Cls is_space), Opt (Lit CHR '',''),
           Star True (Cls is_space)]"

definition removeModuleId :: "jstring \<Rightarrow> jstring" where
  "removeModuleId content = replace_str moduleId_re [] content"

section \<open>inlineResourcesFromString\<close>

text \<open>
  \<^verbatim>\<open>[inlineTemplate, inlineStyle, removeModuleId].reduce((content, fn) => fn(content,
  urlResolver), content)\<close>: the three passes in this order, an exception of one ending the
  call.
\<close>

definition inlineResourcesFromString ::
  "(jstring \<Rightarrow> error + jstring list) \<Rightarrow> reader \<Rightarrow> resolver \<Rightarrow> jstring \<Rightarrow> error + jstring" where
  "inlineResourcesFromString ev readFileSync urlResolver content =
     (case inlineTemplate readFileSync urlResolver content of
        Inl e \<Rightarrow> Inl e
      | Inr content1 \<Rightarrow>
          (case inlineStyle ev readFileSync urlResolver content1 of
             Inl e \<Rightarrow> Inl e
           | Inr content2 \<Rightarrow> Inr (removeModuleId content2)))"

section \<open>Configuration documents\<close>

text \<open>
  The values of JSON. A number is the real value of the double that the loader yields.
\<close>

datatype json =
    JNull | JBool bool | JNum real | JStr jstring | JArr "json list" | JObj "(jstring \<times> json) list"

text \<open>The values that count as true in a condition.\<close>

fun truthy :: "json \<Rightarrow> bool" where
  "truthy JNull = False"
| "truthy (JBool b) = b"
| "truthy (JNum x) = (x \<noteq> 0)"
| "truthy (JStr s) = (s \<noteq> [])"
| "truthy (JArr xs) = True"
| "truthy (JObj kvs) = True"

text \<open>
  A configuration document is a JSON object: its property \<^verbatim>\<open>extends\<close>, its property
  \<^verbatim>\<open>compilerOptions\<close> and its other properties. \<open>compilerOptions = None\<close> stands for a
  property that is absent or false in a condition, which the code replaces by an empty
  object at once; \<open>Some m\<close> for an object with the properties \<open>m\<close>. A document that is
  not an object, and a \<^verbatim>\<open>compilerOptions\<close> that is true in a condition without being an
  object, are outside the model.
\<close>

record tsconfig =
  extends :: "json option"
  compilerOptions :: "(jstring \<rightharpoonup> json) option"
  others :: "jstring \<rightharpoonup> json"

text \<open>
  A file of the disk as the module loader meets it, that is, what loading the file of
  that name gives: there is no such file; loading it throws (a \<^verbatim>\<open>SyntaxError\<close> for a
  \<^verbatim>\<open>.json\<close> file that is not JSON, whatever a script throws); or the module exports a
  configuration document (the value of a \<^verbatim>\<open>.json\<close> file, the \<^verbatim>\<open>module.exports\<close> of a
  script).
\<close>

datatype disk_file = NoFile | Fails error | Exports tsconfig

text \<open>
  The state of the process and of the disk: the files of the disk that the loader can
  meet; the two caches of the module loader, the file name found for a path that has been
  required (\<^verbatim>\<open>Module._pathCache\<close>) and the module objects by file name, each in its
  present state (\<^verbatim>\<open>require.cache\<close>); the files of the compilation as \<^verbatim>\<open>fs\<close> reads them,
  the paths that can be written, and what has been printed by \<^verbatim>\<open>console.error\<close>. The
  configuration documents and the files of the compilation are kept apart.
\<close>

record world =
  disk :: "jstring \<Rightarrow> disk_file"
  paths :: "jstring \<rightharpoonup> jstring"
  cache :: "jstring \<rightharpoonup> tsconfig"
  files :: "jstring \<Rightarrow> error + jstring"
  writable :: "jstring \<Rightarrow> bool"
  console :: "error list"

text \<open>
  The functions of the modules \<^verbatim>\<open>path\<close> and \<^verbatim>\<open>glob\<close> that the code calls, the directory
  of the script (\<^verbatim>\<open>__dirname\<close>), and the search of the module loader for the file of an
  absolute path that is required: the name of the file it finds on the given disk, which
  may be the path itself, the path with an extension that the loader appends, or a file
  that a directory of that name stands for. All are parameters of the model.
\<close>

record node =
  resolve :: "jstring \<Rightarrow> jstring \<Rightarrow> jstring"
  dirname :: "jstring \<Rightarrow> jstring"
  relative :: "jstring \<Rightarrow> jstring \<Rightarrow> jstring"
  join3 :: "jstring \<Rightarrow> jstring \<Rightarrow> jstring \<Rightarrow> jstring"
  glob_sync :: "jstring \<Rightarrow> world \<Rightarrow> jstring list"
  script_dir :: jstring
  locate :: "(jstring \<Rightarrow> disk_file) \<Rightarrow> jstring \<Rightarrow> jstring option"

text \<open>
  The file name for a path that is required: the one found when the path was required
  before, which the loader keeps without looking at the disk again, or else the one that
  the search finds now.
\<close>

definition find_path :: "node \<Rightarrow> jstring \<Rightarrow> world \<Rightarrow> jstring option" where
  "find_path env request w =
     (case paths w request of
        Some filename \<Rightarrow> Some filename
      | None \<Rightarrow> locate env (disk w) request)"

text \<open>
  \<^verbatim>\<open>require(request)\<close>. When no file is found the call throws. Otherwise the file name is
  kept for the path, and the result is the module object of that file name in the cache
  if there is one; if not, the file is loaded, and its document is put into the cache
  unless loading throws. A file name that was kept for a file that is gone makes reading
  throw.
\<close>

definition require :: "node \<Rightarrow> jstring \<Rightarrow> world \<Rightarrow> (error + tsconfig) \<times> world" where
  "require env request w =
     (case find_path env request w of
        None \<Rightarrow> (Inl ModuleNotFound, w)
      | Some filename \<Rightarrow>
          (let w1 = w\<lparr>paths := (paths w)(request \<mapsto> filename)\<rparr>
           in case cache w filename of
                Some doc \<Rightarrow> (Inr doc, w1)
              | None \<Rightarrow>
                  (case disk w filename of
                     NoFile \<Rightarrow> (Inl SystemError, w1)
                   | Fails e \<Rightarrow> (Inl e, w1)
                   | Exports doc \<Rightarrow> (Inr doc, w1\<lparr>cache := (cache w)(filename \<mapsto> doc)\<rparr>))))"

text \<open>
  An assignment to a property of the module object that \<^verbatim>\<open>require(request)\<close> has returned:
  the object in the cache changes.
\<close>

definition store :: "jstring \<Rightarrow> tsconfig \<Rightarrow> world \<Rightarrow> world" where
  "store request doc w =
     (case paths w request of
        None \<Rightarrow> w
      | Some filename \<Rightarrow> w\<lparr>cache := (cache w)(filename \<mapsto> doc)\<rparr>)"

text \<open>The compiler options of a document whose \<^verbatim>\<open>compilerOptions\<close> has been set.\<close>

definition options :: "tsconfig \<Rightarrow> jstring \<rightharpoonup> json" where
  "options doc = (case compilerOptions doc of None \<Rightarrow> Map.empty | Some m \<Rightarrow> m)"

text \<open>
  One round of the \<^verbatim>\<open>forEach\<close> over \<^verbatim>\<open>['outDir', 'rootDir']\<close>: an option that is true in a
  condition is replaced by its path resolved against the directory of the document;
  \<^verbatim>\<open>path.resolve\<close> throws a \<^verbatim>\<open>TypeError\<close> when the option is not a string.
\<close>

definition resolve_prop ::
  "node \<Rightarrow> jstring \<Rightarrow> jstring \<Rightarrow> jstring \<Rightarrow> tsconfig \<Rightarrow> world \<Rightarrow> (error + tsconfig) \<times> world" where
  "resolve_prop env tsConfigDir file prop doc w =
     (case options doc prop of
        None \<Rightarrow> (Inr doc, w)
      | Some v \<Rightarrow>
          if truthy v then
            (case v of
               JStr s \<Rightarrow>
                 (let doc' = doc\<lparr>compilerOptions :=
                        Some ((options doc)(prop \<mapsto> JStr (resolve env tsConfigDir s)))\<rparr>
                  in (Inr doc', store file doc' w))
             | _ \<Rightarrow> (Inl TypeError, w))
          else (Inr doc, w))"

definition resolve_dirs ::
  "node \<Rightarrow> jstring \<Rightarrow> jstring \<Rightarrow> tsconfig \<Rightarrow> world \<Rightarrow> (error + tsconfig) \<times> world" where
  "resolve_dirs env tsConfigDir file doc w =
     (case resolve_prop env tsConfigDir file (js ''outDir'') doc w of
        (Inl e, w1) \<Rightarrow> (Inl e, w1)
      | (Inr doc1, w1) \<Rightarrow> resolve_prop env tsConfigDir file (js ''rootDir'') doc1 w1)"

text \<open>
  \<^verbatim>\<open>readTsconfig\<close>. The first argument bounds the depth of the recursion: JavaScript ends a
  recursion that is too deep with a \<^verbatim>\<open>RangeError\<close>, which is what a chain of \<^verbatim>\<open>extends\<close>
  that comes back to a document runs into. \<^verbatim>\<open>Object.assign({}, parent, child)\<close> is
  \<open>parent ++ child\<close>. The module object of the document is not touched by the call for
  the parent unless the chain comes back to the file of the document, and when it comes
  back under a path of the same directory that call does not return; so the options of
  the child are the ones read before the call. A chain that comes back to the file under
  a path of another directory (a link, a directory that stands for its index file) is
  outside the model.
\<close>

fun readTsconfig :: "nat \<Rightarrow> node \<Rightarrow> jstring \<Rightarrow> world \<Rightarrow> (error + tsconfig) \<times> world" where
  "readTsconfig 0 env tsconfigPath w = (Inl RangeError, w)"
| "readTsconfig (Suc depth) env tsconfigPath w =
     (let tsConfigDir = dirname env tsconfigPath;
          file = resolve env (script_dir env) tsconfigPath
      in case require env file w of
           (Inl e, w1) \<Rightarrow> (Inl e, w1)
         | (Inr tsConfigJson, w1) \<Rightarrow>
             (let doc1 = tsConfigJson\<lparr>compilerOptions := Some (options tsConfigJson)\<rparr>;
                  w2 = store file doc1 w1
              in case extends doc1 of
                   None \<Rightarrow> resolve_dirs env tsConfigDir file doc1 w2
                 | Some ext \<Rightarrow>
                     if truthy ext then
                       (case ext of
                          JStr parent \<Rightarrow>
                            (case readTsconfig depth env (resolve env tsConfigDir parent) w2 of
                               (Inl e, w3) \<Rightarrow> (Inl e, w3)
                             | (Inr parentTsconfigJson, w3) \<Rightarrow>
                                 (let doc2 = doc1\<lparr>compilerOptions :=
                                        Some (options parentTsconfigJson ++ options doc1)\<rparr>
                                  in resolve_dirs env tsConfigDir file doc2 (store file doc2 w3)))
                        | _ \<Rightarrow> (Inl TypeError, w2))
                     else resolve_dirs env tsConfigDir file doc1 w2))"

section \<open>inlineResources\<close>

text \<open>
  The resolver that \<^verbatim>\<open>inlineResources\<close> builds for a file:
  \<^verbatim>\<open>path.join(rootDir, path.relative(outDir, path.dirname(filePath)), url)\<close>, a \<^verbatim>\<open>TypeError\<close>
  when \<^verbatim>\<open>rootDir\<close> is not a string.
\<close>

definition file_resolver :: "node \<Rightarrow> json option \<Rightarrow> jstring \<Rightarrow> jstring \<Rightarrow> resolver" where
  "file_resolver env rootDir outDir filePath url =
     (let relativePath = relative env outDir (dirname env filePath)
      in case rootDir of
           Some (JStr rootPath) \<Rightarrow> Inr (join3 env rootPath relativePath url)
         | _ \<Rightarrow> Inl TypeError)"

text \<open>\<^verbatim>\<open>fs.writeFile\<close>\<close>

definition writeFile :: "jstring \<Rightarrow> jstring \<Rightarrow> world \<Rightarrow> error + world" where
  "writeFile filePath content w =
     (if writable w filePath then Inr (w\<lparr>files := (files w)(filePath := Inr content)\<rparr>)
      else Inl SystemError)"

text \<open>
  The unit of work of one file: read, inline, write back; a failure of any of the three is
  caught and printed.
\<close>

definition process_file ::
  "(jstring \<Rightarrow> error + jstring list) \<Rightarrow> node \<Rightarrow> json option \<Rightarrow> jstring \<Rightarrow> world \<Rightarrow> jstring \<Rightarrow> world" where
  "process_file ev env rootDir outDir w filePath =
     (case files w filePath of
        Inl err \<Rightarrow> w\<lparr>console := console w @ [err]\<rparr>
      | Inr content \<Rightarrow>
          (case inlineResourcesFromString ev (files w) (file_resolver env rootDir outDir filePath)
                  content of
             Inl err \<Rightarrow> w\<lparr>console := console w @ [err]\<rparr>
           | Inr content' \<Rightarrow>
               (case writeFile filePath content' w of
                  Inl err \<Rightarrow> w\<lparr>console := console w @ [err]\<rparr>
                | Inr w' \<Rightarrow> w')))"

text \<open>
  \<^verbatim>\<open>inlineResources\<close>. An exception of \<^verbatim>\<open>readTsconfig\<close>, and the \<^verbatim>\<open>TypeError\<close> of
  \<^verbatim>\<open>path.join\<close> when \<^verbatim>\<open>outDir\<close> is not a string, are thrown to the caller before any file
  is looked at. Otherwise the promise of \<^verbatim>\<open>Promise.all\<close> is returned; the model runs the
  units of work of the files one after the other in the order of the list, which is one of
  the orders in which the promises can be settled, and the result \<open>Inr ()\<close> says that
  the promise is fulfilled.
\<close>

definition inlineResources ::
  "(jstring \<Rightarrow> error + jstring list) \<Rightarrow> nat \<Rightarrow> node \<Rightarrow> jstring \<Rightarrow> world \<Rightarrow> (error + unit) \<times> world" where
  "inlineResources ev depth env tsconfigPath w =
     (case readTsconfig depth env (resolve env (script_dir env) tsconfigPath) w of
        (Inl e, w1) \<Rightarrow> (Inl e, w1)
      | (Inr tsconfigJson, w1) \<Rightarrow>
          (let rootDir = options tsconfigJson (js ''rootDir'');
               outDir = options tsconfigJson (js ''outDir'')
           in case outDir of
                Some (JStr out) \<Rightarrow>
                  (let filesGlob = join3 env out (js ''**'') (js ''*.js'');
                       fileList = glob_sync env filesGlob w1
                   in (Inr (), foldl (process_file ev env rootDir out) w1 fileList))
              | _ \<Rightarrow> (Inl TypeError, w1)))"

section \<open>Notions for the claims about the configuration\<close>

text \<open>
  The document that \<^verbatim>\<open>require\<close> can supply for a path: the module object in the cache, or
  else the document of the file found, when there is a file and it loads.
\<close>

definition lookup :: "node \<Rightarrow> world \<Rightarrow> jstring \<Rightarrow> tsconfig option" where
  "lookup env w request =
     (case find_path env request w of
        None \<Rightarrow> None
      | Some filename \<Rightarrow>
          (case cache w filename of
             Some doc \<Rightarrow> Some doc
           | None \<Rightarrow> (case disk w filename of Exports doc \<Rightarrow> Some doc | _ \<Rightarrow> None)))"

text \<open>
  The paths that \<^verbatim>\<open>readTsconfig\<close> requires for a path, down to the given depth: the
  document of the path, then the document its \<^verbatim>\<open>extends\<close> names, and so on while the
  documents are there and extend another one.
\<close>

fun extends_chain :: "nat \<Rightarrow> node \<Rightarrow> world \<Rightarrow> jstring \<Rightarrow> jstring list" where
  "extends_chain 0 env w p = []"
| "extends_chain (Suc n) env w p =
     resolve env (script_dir env) p #
       (case lookup env w (resolve env (script_dir env) p) of
          None \<Rightarrow> []
        | Some doc \<Rightarrow>
            (case extends doc of
               Some (JStr parent) \<Rightarrow>
                 if parent \<noteq> [] then extends_chain n env w (resolve env (dirname env p) parent)
                 else []
             | _ \<Rightarrow> []))"


text \<open>
  \<open>w'\<close> comes from \<open>w\<close> by loading documents and assigning to them: nothing else has
  changed, and nothing has left the caches.
\<close>

definition grows :: "world \<Rightarrow> world \<Rightarrow> bool" where
  "grows w w' \<longleftrightarrow>
     disk w' = disk w \<and> files w' = files w \<and> writable w' = writable w \<and>
     console w' = console w \<and> (\<forall>f. cache w' f = None \<longrightarrow> cache w f = None) \<and>
     (\<forall>r. paths w' r = None \<longrightarrow> paths w r = None)"

text \<open>The documents of the two states extend the same documents.\<close>

definition same_view :: "node \<Rightarrow> world \<Rightarrow> world \<Rightarrow> bool" where
  "same_view env w w' \<longleftrightarrow>
     (\<forall>f. map_option extends (lookup env w' f) = map_option extends (lookup env w f))"

text \<open>
  The exceptions of the loader on the disk of \<open>w\<close>: no file is found for the path, the
  file whose name was kept is gone, or loading a file throws.
\<close>

definition loader_error :: "world \<Rightarrow> error \<Rightarrow> bool" where
  "loader_error w e \<longleftrightarrow> e = ModuleNotFound \<or> e = SystemError \<or> (\<exists>f. disk w f = Fails e)"

text \<open>The option \<open>k\<close> of the configuration that a call of \<^verbatim>\<open>readTsconfig\<close> returns.\<close>

definition option_of :: "(error + tsconfig) \<times> world \<Rightarrow> jstring \<Rightarrow> error + json option" where
  "option_of r k = (case fst r of Inl e \<Rightarrow> Inl e | Inr doc \<Rightarrow> Inr (options doc k))"


text \<open>Two states with the same files of the compilation.\<close>

definition same_files :: "world \<Rightarrow> world \<Rightarrow> bool" where
  "same_files w w' \<longleftrightarrow> files w' = files w \<and> writable w' = writable w"

text \<open>The exception that the unit of work of a file ends with, if it fails.\<close>

definition unit_error ::
  "(jstring \<Rightarrow> error + jstring list) \<Rightarrow> node \<Rightarrow> json option \<Rightarrow> jstring \<Rightarrow> world \<Rightarrow> jstring \<Rightarrow> error option" where
  "unit_error ev env rootDir outDir w filePath =
     (case files w filePath of
        Inl err \<Rightarrow> Some err
      | Inr content \<Rightarrow>
          (case inlineResourcesFromString ev (files w) (file_resolver env rootDir outDir filePath)
                  content of
             Inl err \<Rightarrow> Some err
           | Inr content' \<Rightarrow>
               (case writeFile filePath content' w of Inl err \<Rightarrow> Some err | Inr w' \<Rightarrow> None)))"

section \<open>An instance of the path functions, and a project, for the examples\<close>

text \<open>
  The functions of \<^verbatim>\<open>path\<close> on POSIX, for absolute paths without a slash at the end:
  a path is cut at the slashes, \<^verbatim>\<open>.\<close> and empty segments are dropped, and \<^verbatim>\<open>..\<close> drops
  the segment before it.
\<close>

fun split_slash :: "jstring \<Rightarrow> jstring list" where
  "split_slash [] = [[]]"
| "split_slash (x # xs) =
     (if x = cu CHR ''/'' then [] # split_slash xs
      else (case split_slash xs of [] \<Rightarrow> [[x]] | seg # segs \<Rightarrow> (x # seg) # segs))"

fun norm_segs :: "jstring list \<Rightarrow> jstring list \<Rightarrow> jstring list" where
  "norm_segs st [] = rev st"
| "norm_segs st (seg # segs) =
     (if seg = [] \<or> seg = js ''.'' then norm_segs st segs
      else if seg = js ''..'' then norm_segs (tl st) segs
      else norm_segs (seg # st) segs)"

definition abs_path :: "jstring list \<Rightarrow> jstring" where
  "abs_path segs = (if segs = [] then js ''/'' else concat (map (\<lambda>seg. cu CHR ''/'' # seg) segs))"

definition posix_resolve :: "jstring \<Rightarrow> jstring \<Rightarrow> jstring" where
  "posix_resolve from to =
     (case to of
        [] \<Rightarrow> abs_path (norm_segs [] (split_slash from))
      | x # xs \<Rightarrow>
          if x = cu CHR ''/'' then abs_path (norm_segs [] (split_slash to))
          else abs_path (norm_segs [] (split_slash from @ split_slash to)))"

definition posix_dirname :: "jstring \<Rightarrow> jstring" where
  "posix_dirname p = abs_path (filter (\<lambda>seg. seg \<noteq> []) (butlast (split_slash p)))"

fun drop_common :: "jstring list \<Rightarrow> jstring list \<Rightarrow> jstring list \<times> jstring list" where
  "drop_common (x # xs) (y # ys) = (if x = y then drop_common xs ys else (x # xs, y # ys))"
| "drop_common xs ys = (xs, ys)"

definition posix_relative :: "jstring \<Rightarrow> jstring \<Rightarrow> jstring" where
  "posix_relative from to =
     (case drop_common (norm_segs [] (split_slash from)) (norm_segs [] (split_slash to)) of
        (up, down) \<Rightarrow> join (js ''/'') (map (\<lambda>seg. js ''..'') up @ down))"

definition posix_join3 :: "jstring \<Rightarrow> jstring \<Rightarrow> jstring \<Rightarrow> jstring" where
  "posix_join3 a b c = abs_path (norm_segs [] (split_slash a @ split_slash b @ split_slash c))"

text \<open>
  The search of the loader on a disk that has files only: the path itself when it is a
  file, or else the path with \<^verbatim>\<open>.js\<close>, \<^verbatim>\<open>.json\<close> or \<^verbatim>\<open>.node\<close> appended, in this order.
\<close>

definition is_file :: "disk_file \<Rightarrow> bool" where
  "is_file x = (case x of NoFile \<Rightarrow> False | _ \<Rightarrow> True)"

definition posix_locate :: "(jstring \<Rightarrow> disk_file) \<Rightarrow> jstring \<Rightarrow> jstring option" where
  "posix_locate d p =
     find (\<lambda>f. is_file (d f)) [p, p @ js ''.js'', p @ js ''.json'', p @ js ''.node'']"

text \<open>
  A project: \<^verbatim>\<open>/p/base.json\<close> and \<^verbatim>\<open>/p/app/tsconfig.json\<close> are the two documents of the
  example of the specification; \<^verbatim>\<open>/p/base2.json\<close> and \<^verbatim>\<open>/p/app/tsconfig2.json\<close> both set
  \<^verbatim>\<open>target\<close>; \<^verbatim>\<open>/p/app/tsconfig3.json\<close> extends \<^verbatim>\<open>../base\<close>, a path at which there is no
  file; \<^verbatim>\<open>/p/app/orphan.json\<close> extends a document that is not there, and
  \<^verbatim>\<open>/p/app/heir.json\<close> extends \<^verbatim>\<open>/p/bad.json\<close>, which is not JSON; \<^verbatim>\<open>/p/app/config.js\<close> is
  a script that exports a configuration. The compiled files are \<^verbatim>\<open>/p/app/dist/a.js\<close>,
  which is a directory, and \<^verbatim>\<open>/p/app/dist/b.js\<close>.
\<close>

definition ex_base :: tsconfig where
  "ex_base =
     \<lparr>extends = None,
      compilerOptions = Some [js ''rootDir'' \<mapsto> JStr (js ''src''), js ''outDir'' \<mapsto> JStr (js ''out'')],
      others = Map.empty\<rparr>"

definition ex_child :: tsconfig where
  "ex_child =
     \<lparr>extends = Some (JStr (js ''../base.json'')),
      compilerOptions = Some [js ''outDir'' \<mapsto> JStr (js ''dist'')],
      others = Map.empty\<rparr>"

definition ex_disk :: "jstring \<Rightarrow> disk_file" where
  "ex_disk f =
     (if f = js ''/p/base.json'' then Exports ex_base
      else if f = js ''/p/app/tsconfig.json'' then Exports ex_child
      else if f = js ''/p/base2.json'' then
        Exports \<lparr>extends = None,
              compilerOptions = Some [js ''target'' \<mapsto> JStr (js ''es5'')],
              others = Map.empty\<rparr>
      else if f = js ''/p/app/tsconfig2.json'' then
        Exports \<lparr>extends = Some (JStr (js ''../base2.json'')),
              compilerOptions = Some [js ''target'' \<mapsto> JStr (js ''es2015'')],
              others = Map.empty\<rparr>
      else if f = js ''/p/app/tsconfig3.json'' then
        Exports \<lparr>extends = Some (JStr (js ''../base'')),
              compilerOptions = Some [js ''outDir'' \<mapsto> JStr (js ''dist'')],
              others = Map.empty\<rparr>
      else if f = js ''/p/app/orphan.json'' then
        Exports \<lparr>extends = Some (JStr (js ''./missing.json'')),
              compilerOptions = Some [js ''outDir'' \<mapsto> JStr (js ''dist'')],
              others = Map.empty\<rparr>
      else if f = js ''/p/bad.json'' then Fails SyntaxError
      else if f = js ''/p/app/heir.json'' then
        Exports \<lparr>extends = Some (JStr (js ''../bad.json'')),
              compilerOptions = Some [js ''outDir'' \<mapsto> JStr (js ''dist'')],
              others = Map.empty\<rparr>
      else if f = js ''/p/app/config.js'' then
        Exports \<lparr>extends = None,
              compilerOptions = Some [js ''outDir'' \<mapsto> JStr (js ''lib'')],
              others = Map.empty\<rparr>
      else NoFile)"


text \<open>
  The disk after \<^verbatim>\<open>/p/app/tsconfig.json\<close> has been deleted and \<^verbatim>\<open>/p/base.json\<close> overwritten
  with a text that is not JSON.
\<close>

definition ex_disk_gone :: "jstring \<Rightarrow> disk_file" where
  "ex_disk_gone f =
     (if f = js ''/p/app/tsconfig.json'' then NoFile
      else if f = js ''/p/base.json'' then Fails SyntaxError
      else ex_disk f)"

definition ex_files :: "jstring \<Rightarrow> error + jstring" where
  "ex_files f =
     (if f = js ''/p/app/dist/b.js'' then Inr (js ''x = {moduleId: module.id, y: 1}'')
      else Inl SystemError)"

definition ex_world :: world where
  "ex_world = \<lparr>disk = ex_disk, paths = Map.empty, cache = Map.empty, files = ex_files,
               writable = (\<lambda>f. True), console = []\<rparr>"

definition ex_glob :: "jstring \<Rightarrow> world \<Rightarrow> jstring list" where
  "ex_glob pattern w =
     (if pattern = js ''/p/app/dist/**/*.js'' then [js ''/p/app/dist/a.js'', js ''/p/app/dist/b.js'']
      else [])"

definition posix :: node where
  "posix = \<lparr>resolve = posix_resolve, dirname = posix_dirname, relative = posix_relative,
            join3 = posix_join3, glob_sync = ex_glob, script_dir = js ''/p/app'',
            locate = posix_locate\<rparr>"

section \<open>The expressions read as scanners\<close>

text \<open>
  What a match attempt of each expression at the start of a text amounts to, written as
  a function that reads the text once from the left. The theorems below prove each equal
  to \<open>exec\<close> of the expression.
\<close>

definition moduleId_tail :: "jstring \<Rightarrow> jstring" where
  "moduleId_tail t =
     (let t1 = dropWhile is_space t
      in dropWhile is_space
           (case t1 of [] \<Rightarrow> [] | x # xs \<Rightarrow> if x = cu CHR '','' then xs else x # xs))"

definition moduleId_match :: "jstring \<Rightarrow> jstring option" where
  "moduleId_match s =
     (let s1 = dropWhile is_space s in
      if prefix (js ''moduleId:'') s1 then
        let s2 = dropWhile is_space (drop (length ''moduleId:'') s1) in
        if prefix (js ''module.id'') s2
        then Some (moduleId_tail (drop (length ''module.id'') s2)) else None
      else None)"

text \<open>The path between the quotes and the text after the closing quote.\<close>

definition templateUrl_match :: "jstring \<Rightarrow> (jstring \<times> jstring) option" where
  "templateUrl_match s =
     (if prefix (js ''templateUrl:'') s then
        (case dropWhile is_space (drop (length ''templateUrl:'') s) of
           [] \<Rightarrow> None
         | x # xs \<Rightarrow>
             if x = cu (CHR 0x27) then
               let p = takeWhile (\<lambda>x. x \<noteq> cu (CHR 0x27)) xs;
                   r = dropWhile (\<lambda>x. x \<noteq> cu (CHR 0x27)) xs
               in if r \<noteq> [] \<and> p \<noteq> [] \<and> suffix (js ''.html'') (tl p) then Some (p, tl r)
                  else None
             else None)
      else None)"

text \<open>The array literal up to its first closing bracket and the text after it.\<close>

definition styleUrls_match :: "jstring \<Rightarrow> (jstring \<times> jstring) option" where
  "styleUrls_match s =
     (if prefix (js ''styleUrls:'') s then
        (case dropWhile is_space (drop (length ''styleUrls:'') s) of
           [] \<Rightarrow> None
         | x # xs \<Rightarrow>
             if x = cu (CHR 0x5B) then
               let b = takeWhile (\<lambda>x. x \<noteq> cu (CHR 0x5D)) xs;
                   r = dropWhile (\<lambda>x. x \<noteq> cu (CHR 0x5D)) xs
               in if r \<noteq> [] then Some (x # b @ [cu (CHR 0x5D)], tl r) else None
             else None)
      else None)"

text \<open>
  What \<open>shorten\<close> does, in two steps: every line break, together with the white space
  that follows it, becomes one space; every double quote gets a backslash before it.
\<close>

function collapse_breaks :: "jstring \<Rightarrow> jstring" where
  "collapse_breaks [] = []"
| "collapse_breaks (x # xs) =
     (if is_newline x then 0x20 # collapse_breaks (dropWhile is_space xs)
      else x # collapse_breaks xs)"
  by pat_completeness auto
termination
  by (relation "measure length") (auto simp add: length_dropWhile_le less_Suc_eq_le)

definition escape_quotes :: "jstring \<Rightarrow> jstring" where
  "escape_quotes s =
     concat (map (\<lambda>x. if x = cu (CHR 0x22) then [cu (CHR 0x5C), cu (CHR 0x22)] else [x]) s)"

section \<open>Notions for the claims about the inlined text\<close>

text \<open>
  The inlined text stands between the double quotes of a string literal. JavaScript reads
  such a literal from the left: a backslash takes the code unit after it along, and a
  double quote that is reached otherwise ends the literal. \<open>raw_quote t\<close> says that the
  text \<open>t\<close> has a double quote of the second kind, one that is not escaped.
\<close>

fun raw_quote :: "jstring \<Rightarrow> bool" where
  "raw_quote [] = False"
| "raw_quote [x] = (x = cu (CHR 0x22))"
| "raw_quote (x # y # t) =
     (if x = cu (CHR 0x5C) then raw_quote t else x = cu (CHR 0x22) \<or> raw_quote (y # t))"

text \<open>A text in which a double quote stands directly after a backslash.\<close>

fun quote_after_backslash :: "jstring \<Rightarrow> bool" where
  "quote_after_backslash (x # y # t) =
     ((x = cu (CHR 0x5C) \<and> y = cu (CHR 0x22)) \<or> quote_after_backslash (y # t))"
| "quote_after_backslash t = False"

section \<open>An environment for the examples\<close>

text \<open>
  A resolver that prefixes the source directory, and a file system with templates and
  style sheets: \<^verbatim>\<open>c.html\<close> and \<^verbatim>\<open>c.css\<close> have double quotes, \<^verbatim>\<open>d.html\<close> and \<^verbatim>\<open>d.css\<close> a
  double quote after a backslash, and one template has a double quote in its name.
\<close>

definition ex_resolver :: resolver where
  "ex_resolver url = Inr (js ''src/'' @ url)"

definition ex_reader :: reader where
  "ex_reader path =
     (if path = js ''src/a.html'' then Inr (js ''<div>'' @ [0x0A] @ js ''  Hi'' @ [0x0A] @ js ''</div>'')
      else if path = js ''src/b.html'' then Inr (js ''a '' @ [0x0A] @ js ''b'')
      else if path = js ''src/c.html'' then
        Inr (js ''<a id='' @ [cu (CHR 0x22)] @ js ''x'' @ [cu (CHR 0x22)] @ js ''>'' @ [0x0A] @ js ''</a>'')
      else if path = js ''src/d.html'' then Inr (js ''a'' @ [cu (CHR 0x5C), cu (CHR 0x22)] @ js ''b'')
      else if path = js ''src/a'' @ [cu (CHR 0x22)] @ js ''b.html'' then Inr (js ''<p>x</p>'')
      else if path = js ''src/a.css'' then Inr (js ''body{}'')
      else if path = js ''src/b.css'' then Inr (js ''a{}'')
      else if path = js ''src/c.css'' then
        Inr (js ''a:after{content:'' @ [cu (CHR 0x22)] @ js ''x'' @ [cu (CHR 0x22)] @ js ''}'')
      else if path = js ''src/d.css'' then Inr (js ''a'' @ [cu (CHR 0x5C), cu (CHR 0x22)] @ js ''b'')
      else if path = js ''src/a].css'' then Inr (js ''body{}'')
      else Inl SystemError)"

text \<open>Auxiliary notions of the proofs about \<open>templateUrl_re\<close> and \<open>styleUrls_re\<close>.\<close>

abbreviation q27 :: code_unit where
  "q27 \<equiv> cu (CHR 0x27)"

abbreviation nq :: "code_unit \<Rightarrow> bool" where
  "nq \<equiv> (\<lambda>x. x \<noteq> cu (CHR 0x27))"

abbreviation rb :: code_unit where
  "rb \<equiv> cu (CHR 0x5D)"

abbreviation nb :: "code_unit \<Rightarrow> bool" where
  "nb \<equiv> (\<lambda>x. x \<noteq> cu (CHR 0x5D))"

text \<open>The closing quote after the group, tried on an outcome of the group's body.\<close>

definition closeq :: "jstring \<Rightarrow> mstate \<Rightarrow> mstate list" where
  "closeq s st' = ms (Seq (Lit (CHR 0x27)) Eps) (Some (take (length s - length (snd st')) s), snd st')"

section \<open>The matcher on the constructs of the expressions\<close>

lemma ms_Star_Nil: "ms (Star g (Cls p)) (c, []) = [(c, [])]"
  by simp

lemma ms_Star_Cons:
  "ms (Star g (Cls p)) (c, x # xs) =
     (if g then (if p x then ms (Star g (Cls p)) (c, xs) else []) @ [(c, x # xs)]
      else (c, x # xs) # (if p x then ms (Star g (Cls p)) (c, xs) else []))"
  by (simp add: Let_def)

lemma ms_Seq_Star_skip:
  assumes "\<And>x xs c. p x \<Longrightarrow> ms r (c, x # xs) = []"
  shows "ms (Seq (Star True (Cls p)) r) (c, s) = ms r (c, dropWhile p s)"
proof (induction s)
  case Nil
  then show ?case by simp
next
  case (Cons x xs)
  then show ?case using assms by (simp add: Let_def del: ms.simps(4) add: ms_Star_Cons)
qed

lemma ms_Star_greedy_hd:
  "\<exists>ys. ms (Star True (Cls p)) (c, s) = (c, dropWhile p s) # ys"
proof (induction s)
  case Nil
  then show ?case by simp
next
  case (Cons x xs)
  then show ?case by (auto simp add: ms_Star_Cons simp del: ms.simps(4))
qed

lemma ms_Lit: "ms (Lit ch) (c, s) = (case s of [] \<Rightarrow> [] | x # xs \<Rightarrow> if x = cu ch then [(c, xs)] else [])"
  by (simp add: Lit_def)

lemma concat_map_concat_map:
  "concat (map f (concat (map g xs))) = concat (map (\<lambda>x. concat (map f (g x))) xs)"
  by (induction xs) simp_all

lemma ms_Seq_fun: "ms (Seq b r) = (\<lambda>x. concat (map (ms r) (ms b x)))"
  by (rule ext) simp

lemma ms_Seq_assoc: "ms (Seq (Seq a b) r) st = ms (Seq a (Seq b r)) st"
  by (simp add: concat_map_concat_map ms_Seq_fun [of b r])

lemma ms_lits_Seq:
  "ms (Seq (lits str) r) (c, s) =
     (if prefix (js str) s then ms r (c, drop (length str) s) else [])"
proof (induction str arbitrary: s)
  case Nil
  then show ?case by (simp add: lits_def js_def)
next
  case (Cons ch str)
  have "lits (ch # str) = Seq (Lit ch) (lits str)"
    by (simp add: lits_def)
  then have "ms (Seq (lits (ch # str)) r) (c, s) =
        concat (map (ms (Seq (lits str) r)) (ms (Lit ch) (c, s)))"
    using ms_Seq_assoc [of "Lit ch" "lits str" r "(c, s)"] by simp
  then show ?case using Cons
    by (cases s) (auto simp add: ms_Lit js_def simp del: ms.simps)
qed

lemma ms_lits:
  "ms (lits str) (c, s) = (if prefix (js str) s then [(c, drop (length str) s)] else [])"
proof -
  have "concat (map (ms Eps) l) = l" for l
    by (induction l) simp_all
  then have "ms (Seq (lits str) Eps) (c, s) = ms (lits str) (c, s)"
    by simp
  then show ?thesis using ms_lits_Seq [of str Eps c s] by simp
qed

lemma ms_Seq_Cls:
  "ms (Seq (Cls p) r) (c, s) = (case s of [] \<Rightarrow> [] | x # xs \<Rightarrow> if p x then ms r (c, xs) else [])"
  by (simp split: list.splits)

lemma ms_Seq_Lit:
  "ms (Seq (Lit ch) r) (c, s) = (case s of [] \<Rightarrow> [] | x # xs \<Rightarrow> if x = cu ch then ms r (c, xs) else [])"
  by (simp add: Lit_def split: list.splits)

lemma ms_Seq_Grp:
  "ms (Seq (Grp a) r) (c, s) =
     concat (map (\<lambda>st'. ms r (Some (take (length s - length (snd st')) s), snd st')) (ms a (c, s)))"
  by (simp add: comp_def)

lemma lazy_step:
  "concat (map F (ms (Seq (Star False (Cls p)) L) (c, t))) =
     concat (map F (ms L (c, t))) @
     (case t of [] \<Rightarrow> []
      | y # ys \<Rightarrow> if p y then concat (map F (ms (Seq (Star False (Cls p)) L) (c, ys))) else [])"
proof (cases t)
  case Nil
  then show ?thesis by simp
next
  case (Cons y ys)
  have "ms (Seq (Star False (Cls p)) L) (c, y # ys) =
      ms L (c, y # ys) @ (if p y then ms (Seq (Star False (Cls p)) L) (c, ys) else [])"
    by (simp add: ms_Star_Cons del: ms.simps(4))
  then show ?thesis using Cons by simp
qed

section \<open>Scanning and replacing\<close>

lemma scan_no_start: "no_start r pre rest \<Longrightarrow> scan r (pre @ rest) = map Plain pre @ scan r rest"
proof (induction pre)
  case Nil
  then show ?case by simp
next
  case (Cons x xs)
  then have "scan r (x # xs @ rest) = Plain x # scan r (xs @ rest)"
    by (subst scan.simps) simp
  then show ?case using Cons by simp
qed

lemma scan_hit:
  assumes "exec r s = Some (cap, rest)" and "length rest < length s"
  shows "scan r s = Hit (take (length s - length rest) s) cap # scan r rest"
  using assms by (subst scan.simps) simp

lemma replace_str_no_start:
  "no_start r pre rest \<Longrightarrow> replace_str r new (pre @ rest) = pre @ replace_str r new rest"
  by (simp add: replace_str_def scan_no_start comp_def)

lemma replace_str_hit:
  assumes "exec r s = Some (cap, rest)" and "length rest < length s"
  shows "replace_str r new s = new @ replace_str r new rest"
  using scan_hit [OF assms] by (simp add: replace_str_def)

lemma replace_str_unfold:
  "replace_str r new s =
     (case exec r s of
        Some (cap, rest) \<Rightarrow>
          if length rest < length s then new @ replace_str r new rest
          else new @ (case s of [] \<Rightarrow> [] | x # xs \<Rightarrow> x # replace_str r new xs)
      | None \<Rightarrow> (case s of [] \<Rightarrow> [] | x # xs \<Rightarrow> x # replace_str r new xs))"
  unfolding replace_str_def
  by (subst scan.simps) (simp split: option.splits list.splits)

lemma dropWhile_all:
  assumes "list_all P ws" and "case rest of [] \<Rightarrow> True | x # _ \<Rightarrow> \<not> P x"
  shows "dropWhile P (ws @ rest) = rest"
proof -
  have "dropWhile P rest = rest" using assms(2) by (cases rest) auto
  then show ?thesis using assms(1) by (simp add: list_all_iff)
qed

lemma dropWhile_head: "case dropWhile P xs of [] \<Rightarrow> True | y # _ \<Rightarrow> \<not> P y"
  by (induction xs) auto

lemma take_takeWhile: "take (length xs - length (dropWhile P xs)) xs = takeWhile P xs"
proof -
  have "length (takeWhile P xs) + length (dropWhile P xs) = length xs"
    by (metis length_append takeWhile_dropWhile_id)
  then have "length xs - length (dropWhile P xs) = length (takeWhile P xs)" by simp
  then show ?thesis using takeWhile_eq_take [of P xs] by simp
qed

section \<open>The expression of removeModuleId\<close>

lemma ms_tail_hd:
  "\<exists>ys. ms (seqs [Star True (Cls is_space), Opt (Lit CHR '',''), Star True (Cls is_space)]) (c, t)
     = (c, moduleId_tail t) # ys"
proof -
  obtain ys1 where 1: "ms (Star True (Cls is_space)) (c, t) = (c, dropWhile is_space t) # ys1"
    using ms_Star_greedy_hd by blast
  define t1 where "t1 = dropWhile is_space t"
  define t2 where "t2 = (case t1 of [] \<Rightarrow> [] | x # xs \<Rightarrow> if x = cu CHR '','' then xs else x # xs)"
  have "\<exists>ys. ms (Opt (Lit CHR '','')) (c, t1) = (c, t2) # ys"
    by (cases t1) (auto simp: t2_def ms_Lit simp del: ms.simps(2))
  then obtain ys2 where 2: "ms (Opt (Lit CHR '','')) (c, t1) = (c, t2) # ys2" by blast
  obtain ys3 where 3: "ms (Star True (Cls is_space)) (c, t2) = (c, dropWhile is_space t2) # ys3"
    using ms_Star_greedy_hd by blast
  have "moduleId_tail t = dropWhile is_space t2"
    by (simp add: moduleId_tail_def t2_def t1_def Let_def)
  then show ?thesis using 1 2 3
    by (simp add: t1_def del: ms.simps(4) ms.simps(5))
qed

lemma exec_moduleId: "exec moduleId_re s = map_option (Pair None) (moduleId_match s)"
proof -
  let ?tail = "seqs [Star True (Cls is_space), Opt (Lit CHR '',''), Star True (Cls is_space)]"
  let ?r2 = "Seq (lits ''module.id'') ?tail"
  let ?r1 = "Seq (lits ''moduleId:'') (Seq (Star True (Cls is_space)) ?r2)"
  have re: "moduleId_re = Seq (Star True (Cls is_space)) ?r1"
    by (simp add: moduleId_re_def)
  have f2: "ms ?r2 (c, x # xs) = []" if "is_space x" for c x xs
    using that by (auto simp add: ms_lits_Seq js_def cu_def is_space_def simp del: ms.simps)
  have f1: "ms ?r1 (c, x # xs) = []" if "is_space x" for c x xs
    using that by (auto simp add: ms_lits_Seq js_def cu_def is_space_def simp del: ms.simps)
  have "ms moduleId_re (None, s) = ms ?r1 (None, dropWhile is_space s)"
    unfolding re using f1 by (rule ms_Seq_Star_skip)
  also have "\<dots> = (if prefix (js ''moduleId:'') (dropWhile is_space s)
      then ms (Seq (Star True (Cls is_space)) ?r2) (None, drop (length ''moduleId:'') (dropWhile is_space s)) else [])"
    by (simp add: ms_lits_Seq del: ms.simps)
  also have "ms (Seq (Star True (Cls is_space)) ?r2) (None, drop (length ''moduleId:'') (dropWhile is_space s))
      = ms ?r2 (None, dropWhile is_space (drop (length ''moduleId:'') (dropWhile is_space s)))"
    using f2 by (rule ms_Seq_Star_skip)
  finally have eq: "ms moduleId_re (None, s) =
     (if prefix (js ''moduleId:'') (dropWhile is_space s)
      then ms ?r2 (None, dropWhile is_space (drop (length ''moduleId:'') (dropWhile is_space s))) else [])" .
  show ?thesis
  proof (cases "prefix (js ''moduleId:'') (dropWhile is_space s) \<and>
      prefix (js ''module.id'') (dropWhile is_space (drop (length ''moduleId:'') (dropWhile is_space s)))")
    case True
    obtain ys where "ms ?tail (None, drop (length ''module.id'') (dropWhile is_space (drop (length ''moduleId:'') (dropWhile is_space s))))
       = (None, moduleId_tail (drop (length ''module.id'') (dropWhile is_space (drop (length ''moduleId:'') (dropWhile is_space s))))) # ys"
      using ms_tail_hd by blast
    then show ?thesis using True eq
      by (simp add: exec_def moduleId_match_def Let_def ms_lits_Seq del: ms.simps seqs.simps)
  next
    case False
    then show ?thesis using eq
      by (auto simp add: exec_def moduleId_match_def Let_def ms_lits_Seq simp del: ms.simps seqs.simps)
  qed
qed

lemma length_moduleId_tail: "length (moduleId_tail t) \<le> length t"
proof -
  have a: "length (dropWhile is_space u) \<le> length u" for u
    by (simp add: length_dropWhile_le)
  define t1 where "t1 = dropWhile is_space t"
  have "length (case t1 of [] \<Rightarrow> [] | x # xs \<Rightarrow> if x = cu CHR '','' then xs else x # xs) \<le> length t1"
    by (cases t1) auto
  then show ?thesis
    unfolding moduleId_tail_def Let_def t1_def [symmetric]
    using a [of t] a [of "case t1 of [] \<Rightarrow> [] | x # xs \<Rightarrow> if x = cu CHR '','' then xs else x # xs"]
    by (simp add: t1_def)
qed

lemma moduleId_match_shorter:
  assumes "moduleId_match s = Some rest"
  shows "length rest < length s"
proof -
  define s1 where "s1 = dropWhile is_space s"
  define s2 where "s2 = dropWhile is_space (drop (length ''moduleId:'') s1)"
  from assms have p1: "prefix (js ''moduleId:'') s1" and
    rest: "rest = moduleId_tail (drop (length ''module.id'') s2)"
    by (auto simp add: moduleId_match_def Let_def s1_def s2_def split: if_splits)
  from p1 have "length (js ''moduleId:'') \<le> length s1" by (rule prefix_length_le)
  then have l1: "9 \<le> length s1" by (simp add: js_def)
  have "length s1 \<le> length s" by (simp add: s1_def length_dropWhile_le)
  moreover have "length s2 \<le> length s1 - 9"
    unfolding s2_def
    by (rule order_trans [OF length_dropWhile_le]) simp
  moreover have "length rest \<le> length s2"
    unfolding rest by (rule order_trans [OF length_moduleId_tail]) simp
  ultimately show ?thesis using l1 by simp
qed

lemma moduleId_match_space:
  "list_all is_space ws \<Longrightarrow> moduleId_match (ws @ u) = moduleId_match u"
  by (simp add: moduleId_match_def list_all_iff)

lemma moduleId_tail_span:
  assumes "list_all is_space ws3" "list_all is_space ws4" "sep = [] \<or> sep = js '',''"
    and "case post of [] \<Rightarrow> True | x # _ \<Rightarrow> \<not> is_space x \<and> (sep = [] \<longrightarrow> x \<noteq> cu CHR '','')"
  shows "moduleId_tail (ws3 @ sep @ ws4 @ post) = post"
proof -
  have ns: "\<not> is_space (cu CHR '','')" by (simp add: cu_def is_space_def)
  have p: "case post of [] \<Rightarrow> True | x # _ \<Rightarrow> \<not> is_space x"
    using assms(4) by (cases post) auto
  show ?thesis
  proof (cases "sep = []")
    case True
    have "list_all is_space (ws3 @ ws4)" using assms(1,2) by simp
    then have "dropWhile is_space ((ws3 @ ws4) @ post) = post"
      using p by (rule dropWhile_all)
    then have d: "dropWhile is_space (ws3 @ sep @ ws4 @ post) = post"
      using True by simp
    have "dropWhile is_space (case post of [] \<Rightarrow> [] | x # xs \<Rightarrow> if x = cu CHR '','' then xs else x # xs) = post"
      using assms(4) True by (cases post) auto
    then show ?thesis
      unfolding moduleId_tail_def Let_def d .
  next
    case False
    then have sep: "sep = [cu CHR '','']" using assms(3) by (simp add: js_def)
    have "dropWhile is_space (ws3 @ (cu CHR '','' # ws4 @ post)) = cu CHR '','' # ws4 @ post"
      using assms(1) by (rule dropWhile_all) (simp add: ns)
    then have d: "dropWhile is_space (ws3 @ sep @ ws4 @ post) = cu CHR '','' # ws4 @ post"
      by (simp add: sep)
    have "dropWhile is_space (ws4 @ post) = post"
      using assms(2) p by (rule dropWhile_all)
    then show ?thesis
      unfolding moduleId_tail_def Let_def d by simp
  qed
qed

lemma moduleId_match_core:
  assumes "list_all is_space ws1" "list_all is_space ws2"
  shows "moduleId_match (ws1 @ js ''moduleId:'' @ ws2 @ js ''module.id'' @ t) = Some (moduleId_tail t)"
proof -
  have 1: "dropWhile is_space (ws1 @ js ''moduleId:'' @ ws2 @ js ''module.id'' @ t)
      = js ''moduleId:'' @ ws2 @ js ''module.id'' @ t"
    using assms(1) by (rule dropWhile_all) (simp add: js_def cu_def is_space_def)
  have 2: "dropWhile is_space (ws2 @ js ''module.id'' @ t) = js ''module.id'' @ t"
    using assms(2) by (rule dropWhile_all) (simp add: js_def cu_def is_space_def)
  have l: "length ''moduleId:'' = length (js ''moduleId:'')"
    "length ''module.id'' = length (js ''module.id'')"
    by (simp_all add: js_def)
  show ?thesis
    unfolding moduleId_match_def Let_def 1 l
    by (simp add: 2)
qed

lemma removeModuleId_unfold:
  "removeModuleId s =
     (case moduleId_match s of
        Some rest \<Rightarrow> removeModuleId rest
      | None \<Rightarrow> (case s of [] \<Rightarrow> [] | x # xs \<Rightarrow> x # removeModuleId xs))"
proof (cases "moduleId_match s")
  case None
  then have "exec moduleId_re s = None" by (simp add: exec_moduleId)
  then have "scan moduleId_re s = (case s of [] \<Rightarrow> [] | x # xs \<Rightarrow> Plain x # scan moduleId_re xs)"
    by (subst scan.simps) simp
  then show ?thesis using None
    by (simp add: replace_str_def removeModuleId_def split: list.splits)
next
  case (Some rest)
  then have e: "exec moduleId_re s = Some (None, rest)" by (simp add: exec_moduleId)
  show ?thesis
    using replace_str_hit [OF e moduleId_match_shorter [OF Some], of "[]"] Some
    by (simp add: removeModuleId_def)
qed

lemmas eval_simps = moduleId_match_def moduleId_tail_def js_def cu_def is_space_def

section \<open>The expressions of shorten\<close>

lemma is_newline_space: "is_newline x \<Longrightarrow> is_space x"
  by (auto simp add: is_newline_def is_space_def)

lemma ms_newline_group_fail:
  assumes "case r of [] \<Rightarrow> True | y # _ \<Rightarrow> \<not> is_space y"
  shows "ms (Grp (Seq (Cls is_newline) (Star True (Cls is_space)))) (c, r) = []"
  using assms is_newline_space by (cases r) (auto simp del: ms.simps(4))

lemma exec_newline:
  "map_option snd (exec newline_re s) =
     (case s of [] \<Rightarrow> None
      | x # xs \<Rightarrow> if is_newline x then Some (dropWhile is_space xs) else None)"
proof (cases s)
  case Nil
  then show ?thesis by (simp add: exec_def newline_re_def Plus_def)
next
  case (Cons x xs)
  let ?G = "Grp (Seq (Cls is_newline) (Star True (Cls is_space)))"
  show ?thesis
  proof (cases "is_newline x")
    case False
    then have "ms ?G (None, x # xs) = []" by (simp del: ms.simps(4))
    then show ?thesis using Cons False
      by (simp add: exec_def newline_re_def Plus_def del: ms.simps(4) ms.simps(6))
  next
    case True
    obtain ys where ys: "ms (Star True (Cls is_space)) (None, xs) = (None, dropWhile is_space xs) # ys"
      using ms_Star_greedy_hd by blast
    from True have "ms (Seq (Cls is_newline) (Star True (Cls is_space))) (None, x # xs)
        = (None, dropWhile is_space xs) # ys"
      using ys by (simp del: ms.simps(4))
    then obtain c1 zs where g: "ms ?G (None, x # xs) = (c1, dropWhile is_space xs) # zs"
      by (simp del: ms.simps(3) ms.simps(4))
    have "ms ?G (c1, dropWhile is_space xs) = []"
      by (rule ms_newline_group_fail) (rule dropWhile_head)
    then have "ms (Star True ?G) (c1, dropWhile is_space xs) = [(c1, dropWhile is_space xs)]"
      by (simp del: ms.simps(6))
    then have "\<exists>ws. ms (Seq ?G (Star True ?G)) (None, x # xs) = (c1, dropWhile is_space xs) # ws"
      using g by (simp del: ms.simps(4) ms.simps(6))
    then show ?thesis using Cons True
      by (auto simp add: exec_def newline_re_def Plus_def simp del: ms.simps)
  qed
qed

lemma replace_newline: "replace_str newline_re (js '' '') s = collapse_breaks s"
proof (induction s rule: collapse_breaks.induct)
  case 1
  have "exec newline_re [] = None" using exec_newline [of "[]"] by simp
  then show ?case by (subst replace_str_unfold) simp
next
  case (2 x xs)
  show ?case
  proof (cases "is_newline x")
    case True
    then obtain cap where e: "exec newline_re (x # xs) = Some (cap, dropWhile is_space xs)"
      using exec_newline [of "x # xs"] by auto
    have l: "length (dropWhile is_space xs) < length (x # xs)"
      by (simp add: length_dropWhile_le less_Suc_eq_le)
    have "replace_str newline_re (js '' '') (x # xs)
       = js '' '' @ replace_str newline_re (js '' '') (dropWhile is_space xs)"
      using e l by (rule replace_str_hit)
    then show ?thesis using True 2 by (simp add: js_def cu_def)
  next
    case False
    then have e: "exec newline_re (x # xs) = None"
      using exec_newline [of "x # xs"] by simp
    show ?thesis using False 2 e by (subst replace_str_unfold) simp
  qed
qed

lemma exec_quote:
  "exec quote_re s = (case s of [] \<Rightarrow> None | x # xs \<Rightarrow> if x = cu (CHR 0x22) then Some (None, xs) else None)"
  by (simp add: exec_def quote_re_def Lit_def split: list.splits)

lemma replace_quote: "replace_str quote_re [cu (CHR 0x5C), cu (CHR 0x22)] s = escape_quotes s"
proof (induction s)
  case Nil
  then show ?case by (subst replace_str_unfold) (simp add: exec_quote escape_quotes_def)
next
  case (Cons x xs)
  then show ?case by (subst replace_str_unfold) (simp add: exec_quote escape_quotes_def)
qed

lemma shorten_eq: "shorten content = escape_quotes (collapse_breaks content)"
  by (simp add: shorten_def replace_newline replace_quote)

section \<open>The double quotes of a shortened text\<close>

lemma code_unit_distinct:
  "cu (CHR 0x5C) \<noteq> cu (CHR 0x22)" "(0x20 :: code_unit) \<noteq> cu (CHR 0x22)"
  "(0x20 :: code_unit) \<noteq> cu (CHR 0x5C)"
  by (simp_all add: cu_def)

lemma quote_after_backslash_Cons:
  "quote_after_backslash t \<Longrightarrow> quote_after_backslash (x # t)"
  by (cases t) simp_all

lemma quote_after_backslash_dropWhile:
  "quote_after_backslash (dropWhile P t) \<Longrightarrow> quote_after_backslash t"
  by (induction t) (auto simp add: quote_after_backslash_Cons split: if_splits)

lemma collapse_breaks_quote_hd:
  "collapse_breaks t = y # r \<Longrightarrow> y = cu (CHR 0x22) \<Longrightarrow> \<exists>r'. t = y # r'"
  by (cases t) (auto simp add: code_unit_distinct split: if_splits)

lemma collapse_breaks_quotes:
  "\<not> quote_after_backslash t \<Longrightarrow> \<not> quote_after_backslash (collapse_breaks t)"
proof (induction t rule: collapse_breaks.induct)
  case 1
  show ?case by simp
next
  case (2 x xs)
  show ?case
  proof (cases "is_newline x")
    case True
    have "\<not> quote_after_backslash (dropWhile is_space xs)"
      using "2.prems" quote_after_backslash_dropWhile quote_after_backslash_Cons by blast
    then have "\<not> quote_after_backslash (collapse_breaks (dropWhile is_space xs))"
      using "2.IH"(1) True by simp
    then show ?thesis using True
      by (cases "collapse_breaks (dropWhile is_space xs)") (simp_all add: code_unit_distinct)
  next
    case False
    have "\<not> quote_after_backslash xs"
      using "2.prems" quote_after_backslash_Cons by blast
    then have ih: "\<not> quote_after_backslash (collapse_breaks xs)"
      using "2.IH"(2) False by simp
    show ?thesis
    proof (cases "collapse_breaks xs")
      case Nil
      then show ?thesis using False by simp
    next
      case (Cons y r)
      have "\<not> (x = cu (CHR 0x5C) \<and> y = cu (CHR 0x22))"
      proof
        assume a: "x = cu (CHR 0x5C) \<and> y = cu (CHR 0x22)"
        then obtain r' where "xs = y # r'" using collapse_breaks_quote_hd [OF Cons] by blast
        then show False using a "2.prems" by simp
      qed
      then show ?thesis using False Cons ih by simp
    qed
  qed
qed

lemma escape_quotes_Cons:
  "escape_quotes (x # t) =
     (if x = cu (CHR 0x22) then cu (CHR 0x5C) # cu (CHR 0x22) # escape_quotes t
      else x # escape_quotes t)"
  by (simp add: escape_quotes_def)

lemma raw_quote_Cons:
  "x \<noteq> cu (CHR 0x5C) \<Longrightarrow> raw_quote (x # t) = (x = cu (CHR 0x22) \<or> raw_quote t)"
  by (cases t) simp_all

lemma escape_quotes_raw:
  "\<not> quote_after_backslash t \<Longrightarrow> \<not> raw_quote (escape_quotes t)"
proof (induction t rule: induct_list012)
  case 1
  show ?case by (simp add: escape_quotes_def)
next
  case (2 x)
  show ?case by (simp add: escape_quotes_def code_unit_distinct)
next
  case (3 x y zs)
  have n: "\<not> quote_after_backslash (y # zs)" "\<not> (x = cu (CHR 0x5C) \<and> y = cu (CHR 0x22))"
    using "3.prems" by simp_all
  then have "\<not> quote_after_backslash zs"
    using quote_after_backslash_Cons by blast
  then have ih1: "\<not> raw_quote (escape_quotes zs)" using "3.IH"(1) by simp
  have ih2: "\<not> raw_quote (escape_quotes (y # zs))" using "3.IH"(2) n(1) by simp
  show ?case
  proof (cases "x = cu (CHR 0x5C)")
    case True
    then have "y \<noteq> cu (CHR 0x22)" using n(2) by simp
    then show ?thesis using True ih1 by (simp add: escape_quotes_Cons code_unit_distinct)
  next
    case False
    show ?thesis
    proof (cases "x = cu (CHR 0x22)")
      case True
      have "escape_quotes (x # y # zs) = cu (CHR 0x5C) # cu (CHR 0x22) # escape_quotes (y # zs)"
        using True by (simp add: escape_quotes_Cons)
      then show ?thesis using ih2 by simp
    next
      case nq: False
      have "escape_quotes (x # y # zs) = x # escape_quotes (y # zs)"
        using nq by (simp add: escape_quotes_Cons)
      then show ?thesis using ih2 False nq by (simp add: raw_quote_Cons)
    qed
  qed
qed

lemma shortened_quotes:
  "\<not> quote_after_backslash t \<Longrightarrow> \<not> raw_quote (escape_quotes (collapse_breaks t))"
  by (rule escape_quotes_raw) (rule collapse_breaks_quotes)

section \<open>The expression of inlineTemplate\<close>

lemma closeq_simp:
  "closeq s (c', t') =
    (case t' of [] \<Rightarrow> [] | x # r' \<Rightarrow> if x = q27 then [(Some (take (length s - length t') s), r')] else [])"
  by (simp add: closeq_def Lit_def split: list.splits)

lemma html_nq: "takeWhile nq (js ''.html'' @ q27 # r') = js ''.html''"
  "dropWhile nq (js ''.html'' @ q27 # r') = q27 # r'"
  by (simp_all add: js_def cu_def)

lemma html_tail: "tl (js ''.html'' @ q27 # r') = js ''html'' @ q27 # r'"
  "takeWhile nq (js ''html'' @ q27 # r') = js ''html''"
  "dropWhile nq (js ''html'' @ q27 # r') = q27 # r'"
  "\<not> suffix (js ''.html'') (js ''html'')"
  "hd (js ''.html'' @ q27 # r') \<noteq> q27"
  by (simp_all add: js_def cu_def suffix_def)

lemma lazy_html:
  "concat (map (closeq s) (ms (Seq (Star False (Cls nq)) (lits ''.html'')) (c, t))) =
     (let p = takeWhile nq t; r = dropWhile nq t
      in if r \<noteq> [] \<and> suffix (js ''.html'') p then [(Some (take (length s - length r) s), tl r)]
         else [])"
proof (induction t)
  case Nil
  show ?case by (subst lazy_step) (simp add: ms_lits js_def)
next
  case (Cons y ys)
  let ?hit = "\<exists>r'. y # ys = js ''.html'' @ q27 # r'"
  have first: "concat (map (closeq s) (ms (lits ''.html'') (c, y # ys))) =
      (if ?hit then [(Some (take (length s - length (dropWhile nq (y # ys))) s), tl (dropWhile nq (y # ys)))] else [])"
  proof (cases ?hit)
    case True
    then obtain r' where t: "y # ys = js ''.html'' @ q27 # r'" by blast
    have "drop (length ''.html'') (js ''.html'' @ q27 # r') = q27 # r'"
      by (simp add: js_def)
    then show ?thesis using True unfolding t
      by (simp add: ms_lits closeq_simp html_nq del: append.simps)
  next
    case False
    have "closeq s (c, drop (length ''.html'') (y # ys)) = []" if "prefix (js ''.html'') (y # ys)"
    proof -
      from that obtain zs where zs: "y # ys = js ''.html'' @ zs" by (auto simp add: prefix_def)
      have d: "drop (length ''.html'') (js ''.html'' @ zs) = zs" by (simp add: js_def)
      have "zs \<noteq> q27 # r'" for r' using False zs by auto
      then show ?thesis unfolding zs d by (cases zs) (auto simp add: closeq_simp)
    qed
    then show ?thesis using False by (simp add: ms_lits del: drop.simps)
  qed
  show ?case
  proof (cases ?hit)
    case True
    then obtain r' where t: "y # ys = js ''.html'' @ q27 # r'"
      by blast
    then have ys: "ys = js ''html'' @ q27 # r'" and y: "y \<noteq> q27"
      using html_tail(1) [of r'] html_tail(5) [of r'] by (metis list.sel(3), metis list.sel(1))
    have rest: "concat (map (closeq s) (ms (Seq (Star False (Cls nq)) (lits ''.html'')) (c, ys))) = []"
      unfolding Cons.IH unfolding ys by (simp only: html_tail Let_def) simp
    have tw: "takeWhile nq (y # ys) = js ''.html''" "dropWhile nq (y # ys) = q27 # r'"
      unfolding t by (rule html_nq)+
    have "concat (map (closeq s) (ms (Seq (Star False (Cls nq)) (lits ''.html'')) (c, y # ys)))
       = [(Some (take (length s - length (q27 # r')) s), r')]"
      by (subst lazy_step) (simp add: first True tw rest y del: ms.simps dropWhile.simps)
    then show ?thesis unfolding Let_def tw by simp
  next
    case False
    have f0: "concat (map (closeq s) (ms (lits ''.html'') (c, y # ys))) = []"
      using first by (simp only: False if_False)
    show ?thesis
    proof (cases "y = q27")
      case True
      have "concat (map (closeq s) (ms (Seq (Star False (Cls nq)) (lits ''.html'')) (c, y # ys))) = []"
        by (subst lazy_step, unfold f0) (simp add: True)
      then show ?thesis using True by (simp add: Let_def js_def)
    next
      case ny: False
      have step: "concat (map (closeq s) (ms (Seq (Star False (Cls nq)) (lits ''.html'')) (c, y # ys)))
         = concat (map (closeq s) (ms (Seq (Star False (Cls nq)) (lits ''.html'')) (c, ys)))"
        by (subst lazy_step, unfold f0) (simp add: ny del: ms.simps)
      have "suffix (js ''.html'') (y # takeWhile nq ys) \<longleftrightarrow> suffix (js ''.html'') (takeWhile nq ys)"
        if r: "dropWhile nq ys \<noteq> []"
      proof -
        have "js ''.html'' \<noteq> y # takeWhile nq ys"
        proof
          assume a: "js ''.html'' = y # takeWhile nq ys"
          obtain x r' where xr: "dropWhile nq ys = x # r'" using r by (cases "dropWhile nq ys") auto
          then have "x = q27" using dropWhile_head [of nq ys] by simp
          moreover have "y # ys = (y # takeWhile nq ys) @ dropWhile nq ys" by simp
          ultimately have "y # ys = js ''.html'' @ q27 # r'" using a xr by simp
          then show False using False by blast
        qed
        then show ?thesis by (simp add: suffix_Cons)
      qed
      then show ?thesis unfolding step Cons.IH using ny by (auto simp add: Let_def)
    qed
  qed
qed

lemma group_html:
  "ms (Seq (Grp (Seq (Plus False (Cls nq)) (lits ''.html''))) (Seq (Lit (CHR 0x27)) Eps)) (c, xs) =
     (let p = takeWhile nq xs; r = dropWhile nq xs
      in if r \<noteq> [] \<and> p \<noteq> [] \<and> suffix (js ''.html'') (tl p) then [(Some p, tl r)] else [])"
proof -
  let ?L = "lits ''.html''"
  have X: "ms (Seq (Plus False (Cls nq)) ?L) (c, xs) =
      (case xs of [] \<Rightarrow> [] | y # ys \<Rightarrow> if nq y then ms (Seq (Star False (Cls nq)) ?L) (c, ys) else [])"
    unfolding Plus_def ms_Seq_assoc by (rule ms_Seq_Cls)
  have G: "ms (Seq (Grp (Seq (Plus False (Cls nq)) ?L)) (Seq (Lit (CHR 0x27)) Eps)) (c, xs)
      = concat (map (closeq xs) (ms (Seq (Plus False (Cls nq)) ?L) (c, xs)))"
    unfolding ms_Seq_Grp closeq_def ..
  have GX: "ms (Seq (Grp (Seq (Plus False (Cls nq)) ?L)) (Seq (Lit (CHR 0x27)) Eps)) (c, xs)
      = concat (map (closeq xs)
          (case xs of [] \<Rightarrow> [] | y # ys \<Rightarrow> if nq y then ms (Seq (Star False (Cls nq)) ?L) (c, ys) else []))"
    by (simp only: G X)
  show ?thesis
  proof (cases xs)
    case Nil
    show ?thesis unfolding GX unfolding Nil by simp
  next
    case (Cons y ys)
    show ?thesis
    proof (cases "y = q27")
      case True
      show ?thesis unfolding GX unfolding Cons True by simp
    next
      case False
      have "take (length xs - length (dropWhile nq xs)) xs = takeWhile nq xs"
        by (rule take_takeWhile)
      then have tk: "take (length (y # ys) - length (dropWhile nq ys)) (y # ys) = y # takeWhile nq ys"
        using False Cons by simp
      have tw: "takeWhile nq (y # ys) = y # takeWhile nq ys" "dropWhile nq (y # ys) = dropWhile nq ys"
        using False by simp_all
      have lhs: "ms (Seq (Grp (Seq (Plus False (Cls nq)) ?L)) (Seq (Lit (CHR 0x27)) Eps)) (c, y # ys)
          = concat (map (closeq (y # ys)) (ms (Seq (Star False (Cls nq)) ?L) (c, ys)))"
        using GX False unfolding Cons by (simp del: ms.simps)
      show ?thesis
        unfolding Cons lhs lazy_html tw Let_def tk by simp
    qed
  qed
qed

lemma exec_templateUrl:
  "exec templateUrl_re s = map_option (\<lambda>(p, r). (Some p, r)) (templateUrl_match s)"
proof -
  let ?R2 = "Seq (Grp (Seq (Plus False (Cls nq)) (lits ''.html''))) (Seq (Lit (CHR 0x27)) Eps)"
  let ?R1 = "Seq (Lit (CHR 0x27)) ?R2"
  have re: "templateUrl_re = Seq (lits ''templateUrl:'') (Seq (Star True (Cls is_space)) ?R1)"
    by (simp add: templateUrl_re_def)
  have f1: "ms ?R1 (c, x # xs) = []" if "is_space x" for c x xs
    using that unfolding ms_Seq_Lit by (auto simp add: cu_def is_space_def)
  have skip: "ms (Seq (Star True (Cls is_space)) ?R1) (c, t) = ms ?R1 (c, dropWhile is_space t)" for c t
    using f1 by (rule ms_Seq_Star_skip)
  define t where "t = dropWhile is_space (drop (length ''templateUrl:'') s)"
  have "ms templateUrl_re (None, s) =
     (if prefix (js ''templateUrl:'') s then ms ?R1 (None, t) else [])"
    unfolding re ms_lits_Seq skip t_def ..
  then have m: "ms templateUrl_re (None, s) =
     (if prefix (js ''templateUrl:'') s then
        (case t of [] \<Rightarrow> []
         | x # xs \<Rightarrow> if x = q27 then
             (let p = takeWhile nq xs; r = dropWhile nq xs
              in if r \<noteq> [] \<and> p \<noteq> [] \<and> suffix (js ''.html'') (tl p) then [(Some p, tl r)] else [])
           else [])
      else [])"
    unfolding ms_Seq_Lit group_html .
  show ?thesis
    unfolding exec_def templateUrl_match_def m t_def [symmetric]
    by (simp add: Let_def split: list.splits)
qed

section \<open>The expression of inlineStyle\<close>

declare ms.simps [simp del]

lemma ms_lazy_any:
  "ms (Seq (Star False (Cls (\<lambda>x. True))) K) (c, t) =
     ms K (c, t) @ (case t of [] \<Rightarrow> [] | y # ys \<Rightarrow> ms (Seq (Star False (Cls (\<lambda>x. True))) K) (c, ys))"
  by (cases t) (simp_all add: ms.simps(3) ms_Star_Nil ms_Star_Cons)

lemma lazy_bracket_none:
  "rb \<notin> set t \<Longrightarrow> ms (Seq (Star False (Cls (\<lambda>x. True))) (Seq (Lit (CHR 0x5D)) Eps)) (c, t) = []"
proof (induction t)
  case Nil
  show ?case by (subst ms_lazy_any) (simp add: ms_Seq_Lit)
next
  case (Cons y ys)
  then show ?case by (subst ms_lazy_any) (auto simp add: ms_Seq_Lit)
qed

lemma lazy_bracket_some:
  "rb \<in> set t \<Longrightarrow> \<exists>zs. ms (Seq (Star False (Cls (\<lambda>x. True))) (Seq (Lit (CHR 0x5D)) Eps)) (c, t)
           = (c, tl (dropWhile nb t)) # zs"
proof (induction t)
  case Nil
  then show ?case by simp
next
  case (Cons y ys)
  show ?case
  proof (cases "y = rb")
    case True
    then show ?thesis by (subst ms_lazy_any) (simp add: ms_Seq_Lit ms.simps(1))
  next
    case False
    then have "ms (Seq (Star False (Cls (\<lambda>x. True))) (Seq (Lit (CHR 0x5D)) Eps)) (c, y # ys)
       = ms (Seq (Star False (Cls (\<lambda>x. True))) (Seq (Lit (CHR 0x5D)) Eps)) (c, ys)"
      by (subst ms_lazy_any) (simp add: ms_Seq_Lit)
    then show ?thesis using Cons False by simp
  qed
qed

lemma group_bracket_fail:
  assumes "case t of [] \<Rightarrow> True | x # xs \<Rightarrow> \<not> (x = cu (CHR 0x5B) \<and> rb \<in> set xs)"
  shows "ms (Grp (seqs [Lit (CHR 0x5B), Star False (Cls (\<lambda>x. True)), Lit (CHR 0x5D)])) (c, t) = []"
proof (cases t)
  case Nil
  then show ?thesis by (simp add: ms.simps(6) ms_Seq_Lit)
next
  case (Cons x xs)
  show ?thesis
  proof (cases "x = cu (CHR 0x5B)")
    case False
    then show ?thesis unfolding Cons by (simp add: ms.simps(6) ms_Seq_Lit)
  next
    case True
    then have "rb \<notin> set xs" using assms Cons by simp
    then have "ms (Seq (Star False (Cls (\<lambda>x. True))) (Seq (Lit (CHR 0x5D)) Eps)) (c, xs) = []"
      by (rule lazy_bracket_none)
    then show ?thesis unfolding Cons using True by (simp add: ms.simps(6) ms_Seq_Lit)
  qed
qed

lemma group_bracket_hd:
  assumes "rb \<in> set xs"
  shows "\<exists>zs. ms (Grp (seqs [Lit (CHR 0x5B), Star False (Cls (\<lambda>x. True)), Lit (CHR 0x5D)]))
            (c, cu (CHR 0x5B) # xs)
          = (Some (cu (CHR 0x5B) # takeWhile nb xs @ [rb]), tl (dropWhile nb xs)) # zs"
proof -
  let ?t = "cu (CHR 0x5B) # xs"
  obtain zs where zs: "ms (Seq (Star False (Cls (\<lambda>x. True))) (Seq (Lit (CHR 0x5D)) Eps)) (c, xs)
           = (c, tl (dropWhile nb xs)) # zs"
    using lazy_bracket_some [OF assms] by blast
  have "dropWhile nb xs \<noteq> []" using assms by simp
  then obtain r' where r': "dropWhile nb xs = rb # r'"
    using dropWhile_head [of nb xs] by (cases "dropWhile nb xs") auto
  have "xs = takeWhile nb xs @ rb # r'"
    using r' by (metis takeWhile_dropWhile_id)
  then have "?t = (cu (CHR 0x5B) # takeWhile nb xs @ [rb]) @ r'" by simp
  then have tk: "take (length ?t - length r') ?t = cu (CHR 0x5B) # takeWhile nb xs @ [rb]"
    by (metis add_diff_cancel_right' append_eq_conv_conj length_append)
  have "ms (seqs [Lit (CHR 0x5B), Star False (Cls (\<lambda>x. True)), Lit (CHR 0x5D)]) (c, ?t)
      = (c, r') # zs"
    using zs r' by (simp add: ms_Seq_Lit)
  then show ?thesis using tk r' by (simp add: ms.simps(6) del: seqs.simps)
qed

lemma exec_styleUrls:
  "exec styleUrls_re s = map_option (\<lambda>(l, r). (Some l, r)) (styleUrls_match s)"
proof -
  let ?G = "Grp (seqs [Lit (CHR 0x5B), Star False (Cls (\<lambda>x. True)), Lit (CHR 0x5D)])"
  have re: "styleUrls_re = Seq (lits ''styleUrls:'') (Seq (Star True (Cls is_space)) (Seq ?G Eps))"
    by (simp add: styleUrls_re_def)
  have eps: "ms (Seq ?G Eps) st = ms ?G st" for st
  proof -
    have "concat (map (ms Eps) l) = l" for l by (induction l) (simp_all add: ms.simps(1))
    then show ?thesis by (simp add: ms.simps(3) ms.simps(1))
  qed
  have f1: "ms (Seq ?G Eps) (c, x # xs) = []" if "is_space x" for c x xs
  proof -
    have "x \<noteq> cu (CHR 0x5B)" using that by (auto simp add: cu_def is_space_def)
    then show ?thesis unfolding eps by (intro group_bracket_fail) simp
  qed
  have skip: "ms (Seq (Star True (Cls is_space)) (Seq ?G Eps)) (c, t) = ms ?G (c, dropWhile is_space t)" for c t
    using ms_Seq_Star_skip [of is_space "Seq ?G Eps", OF f1] eps by (simp del: seqs.simps)
  define t where "t = dropWhile is_space (drop (length ''styleUrls:'') s)"
  have m: "ms styleUrls_re (None, s) =
     (if prefix (js ''styleUrls:'') s then ms ?G (None, t) else [])"
    unfolding re ms_lits_Seq skip t_def ..
  show ?thesis
  proof (cases "prefix (js ''styleUrls:'') s")
    case False
    then show ?thesis unfolding exec_def m styleUrls_match_def by simp
  next
    case True
    show ?thesis
    proof (cases t)
      case Nil
      have "ms ?G (None, []) = []" by (intro group_bracket_fail) simp
      then show ?thesis
        unfolding exec_def m styleUrls_match_def t_def [symmetric] Nil using True by simp
    next
      case (Cons x xs)
      show ?thesis
      proof (cases "x = cu (CHR 0x5B) \<and> rb \<in> set xs")
        case False
        then have "ms ?G (None, x # xs) = []" by (intro group_bracket_fail) auto
        then show ?thesis
          unfolding exec_def m styleUrls_match_def t_def [symmetric] Cons using True False
          by (auto simp add: Let_def)
      next
        case hit: True
        then obtain zs where "ms ?G (None, x # xs)
            = (Some (cu (CHR 0x5B) # takeWhile nb xs @ [rb]), tl (dropWhile nb xs)) # zs"
          using group_bracket_hd [of xs None] by auto
        then show ?thesis
          unfolding exec_def m styleUrls_match_def t_def [symmetric] Cons using True hit
          by (simp add: Let_def)
      qed
    qed
  qed
qed

section \<open>Replacing by a function\<close>

lemma subst_plain:
  "subst f (map Plain pre @ ps) =
     (case subst f ps of Inl e \<Rightarrow> Inl e | Inr rest \<Rightarrow> Inr (pre @ rest))"
  by (induction pre) (simp_all split: sum.splits)

lemma replace_fn_no_start:
  "no_start r pre rest \<Longrightarrow>
   replace_fn r f (pre @ rest) =
     (case replace_fn r f rest of Inl e \<Rightarrow> Inl e | Inr out \<Rightarrow> Inr (pre @ out))"
  by (simp add: replace_fn_def scan_no_start subst_plain)

lemma replace_fn_hit:
  assumes "exec r s = Some (cap, rest)" and "length rest < length s"
  shows "replace_fn r f s =
     (case f (take (length s - length rest) s) cap of
        Inl e \<Rightarrow> Inl e
      | Inr new \<Rightarrow> (case replace_fn r f rest of Inl e \<Rightarrow> Inl e | Inr out \<Rightarrow> Inr (new @ out)))"
  unfolding replace_fn_def using scan_hit [OF assms] by simp

lemma scan_Nil: "exec r [] = None \<Longrightarrow> scan r [] = []"
  by (subst scan.simps) simp

lemma replace_fn_no_match: "no_match r s \<Longrightarrow> replace_fn r f s = Inr s"
  using replace_fn_no_start [of r s "[]" f]
  by (simp add: no_match_def replace_fn_def scan_Nil)

lemma replace_str_no_match: "no_match r s \<Longrightarrow> replace_str r new s = s"
  using replace_str_no_start [of r s "[]" new]
  by (simp add: no_match_def replace_str_def scan_Nil)

lemma no_start_append:
  "no_start r (a @ b) rest \<longleftrightarrow> no_start r a (b @ rest) \<and> no_start r b rest"
  by (induction a) auto

lemma takeWhile_stop:
  assumes "\<forall>x\<in>set xs. P x" and "\<not> P y"
  shows "takeWhile P (xs @ y # ys) = xs" and "dropWhile P (xs @ y # ys) = y # ys"
  using assms by simp_all

section \<open>The passes on a declaration\<close>

lemma templateUrl_match_shorter:
  assumes "templateUrl_match s = Some (p, rest)"
  shows "length rest < length s"
proof -
  define t where "t = dropWhile is_space (drop (length ''templateUrl:'') s)"
  have lt: "length t \<le> length s"
    unfolding t_def by (rule order_trans [OF length_dropWhile_le]) simp
  from assms obtain x xs where t: "t = x # xs" and rest: "rest = tl (dropWhile nq xs)"
    unfolding templateUrl_match_def t_def [symmetric]
    by (auto simp add: Let_def split: if_splits list.splits)
  have "length rest \<le> length xs"
    unfolding rest using length_dropWhile_le [of nq xs] by simp
  then show ?thesis using lt t by simp
qed

lemma inlineTemplate_unfold:
  "inlineTemplate readFileSync urlResolver s =
     (case templateUrl_match s of
        Some (p, rest) \<Rightarrow>
          (case template_replacer readFileSync urlResolver (take (length s - length rest) s) (Some p) of
             Inl e \<Rightarrow> Inl e
           | Inr new \<Rightarrow>
               (case inlineTemplate readFileSync urlResolver rest of
                  Inl e \<Rightarrow> Inl e
                | Inr out \<Rightarrow> Inr (new @ out)))
      | None \<Rightarrow>
          (case s of [] \<Rightarrow> Inr []
           | x # xs \<Rightarrow>
               (case inlineTemplate readFileSync urlResolver xs of
                  Inl e \<Rightarrow> Inl e
                | Inr out \<Rightarrow> Inr (x # out))))"
proof (cases "templateUrl_match s")
  case None
  then have "exec templateUrl_re s = None" by (simp add: exec_templateUrl)
  then have "scan templateUrl_re s = (case s of [] \<Rightarrow> [] | x # xs \<Rightarrow> Plain x # scan templateUrl_re xs)"
    by (subst scan.simps) simp
  then show ?thesis using None
    by (simp add: inlineTemplate_def replace_fn_def split: list.splits)
next
  case (Some a)
  obtain p rest where a: "a = (p, rest)" by (cases a)
  have e: "exec templateUrl_re s = Some (Some p, rest)"
    using Some a by (simp add: exec_templateUrl)
  have l: "length rest < length s"
    using Some a templateUrl_match_shorter by simp
  show ?thesis
    unfolding inlineTemplate_def replace_fn_hit [OF e l] Some a by simp
qed

lemma templateUrl_match_head:
  assumes "list_all is_space ws" and "case v of [] \<Rightarrow> True | x # _ \<Rightarrow> \<not> is_space x"
  shows "templateUrl_match (js ''templateUrl:'' @ ws @ v) =
     (case v of
        [] \<Rightarrow> None
      | x # xs \<Rightarrow>
          if x = cu (CHR 0x27) then
            let p = takeWhile nq xs; r = dropWhile nq xs
            in if r \<noteq> [] \<and> p \<noteq> [] \<and> suffix (js ''.html'') (tl p) then Some (p, tl r) else None
          else None)"
proof -
  have l: "length ''templateUrl:'' = length (js ''templateUrl:'')" by (simp add: js_def)
  have d: "drop (length ''templateUrl:'') (js ''templateUrl:'' @ ws @ v) = ws @ v"
    unfolding l by simp
  have dw: "dropWhile is_space (ws @ v) = v"
    using assms by (rule dropWhile_all)
  show ?thesis
    unfolding templateUrl_match_def d dw by simp
qed

lemma templateUrl_match_declaration:
  assumes ws: "list_all is_space ws" and stem: "stem \<noteq> []" "cu (CHR 0x27) \<notin> set stem"
  shows "templateUrl_match
      (js ''templateUrl:'' @ ws @ [cu (CHR 0x27)] @ stem @ js ''.html'' @ [cu (CHR 0x27)] @ post)
    = Some (stem @ js ''.html'', post)"
proof -
  let ?u = "js ''templateUrl:'' @ ws @ [cu (CHR 0x27)] @ stem @ js ''.html'' @ [cu (CHR 0x27)] @ post"
  have l: "length ''templateUrl:'' = length (js ''templateUrl:'')" by (simp add: js_def)
  have d: "drop (length ''templateUrl:'') ?u
      = ws @ q27 # (stem @ js ''.html'') @ q27 # post"
    unfolding l by simp
  have dw: "dropWhile is_space (ws @ q27 # (stem @ js ''.html'') @ q27 # post)
      = q27 # (stem @ js ''.html'') @ q27 # post"
    using ws by (intro dropWhile_all) (simp_all add: cu_def is_space_def)
  have all: "\<forall>x\<in>set (stem @ js ''.html''). nq x"
    using stem(2) by (auto simp add: js_def cu_def)
  have tw: "takeWhile nq ((stem @ js ''.html'') @ q27 # post) = stem @ js ''.html''"
    "dropWhile nq ((stem @ js ''.html'') @ q27 # post) = q27 # post"
    using all by (rule takeWhile_stop, simp)+
  have sf: "suffix (js ''.html'') (tl (stem @ js ''.html''))"
    using stem(1) by (cases stem) (simp_all add: suffix_def)
  have ne: "stem @ js ''.html'' \<noteq> []" using stem(1) by simp
  show ?thesis
    unfolding templateUrl_match_def d dw
    by (simp only: prefixI [OF refl] if_True list.case tw Let_def sf ne) simp
qed

lemma template_replacer_ok:
  assumes "urlResolver templateUrl = Inr templateFile" and "readFileSync templateFile = Inr templateContent"
  shows "template_replacer readFileSync urlResolver m (Some templateUrl) =
    Inr (js ''template: '' @ [cu (CHR 0x22)] @ escape_quotes (collapse_breaks templateContent)
           @ [cu (CHR 0x22)])"
  using assms by (simp add: template_replacer_def shorten_eq)

lemma templateUrl_space_no_start:
  "list_all is_space ws \<Longrightarrow> no_start templateUrl_re ws v"
proof (induction ws)
  case Nil
  show ?case by simp
next
  case (Cons x xs)
  then have "is_space x" by simp
  then have "x \<noteq> cu CHR ''t''" by (auto simp add: cu_def is_space_def)
  then have "templateUrl_match (x # xs @ v) = None"
    by (simp add: templateUrl_match_def js_def)
  then show ?case using Cons by (simp add: exec_templateUrl)
qed

lemma templateUrl_head_no_start:
  assumes "list_all is_space ws" and "templateUrl_match (js ''templateUrl:'' @ ws @ v) = None"
  shows "no_start templateUrl_re (js ''templateUrl:'' @ ws) v"
proof -
  have "no_start templateUrl_re (js ''templateUrl:'') (ws @ v)"
    using assms(2) by (simp add: js_def exec_templateUrl) (simp add: templateUrl_match_def js_def cu_def)
  then show ?thesis
    using templateUrl_space_no_start [OF assms(1)] by (simp add: no_start_append)
qed

lemma styleUrls_match_shorter:
  assumes "styleUrls_match s = Some (l, rest)"
  shows "length rest < length s"
proof -
  define t where "t = dropWhile is_space (drop (length ''styleUrls:'') s)"
  have lt: "length t \<le> length s"
    unfolding t_def by (rule order_trans [OF length_dropWhile_le]) simp
  from assms obtain x xs where t: "t = x # xs" and rest: "rest = tl (dropWhile nb xs)"
    unfolding styleUrls_match_def t_def [symmetric]
    by (auto simp add: Let_def split: if_splits list.splits)
  have "length rest \<le> length xs"
    unfolding rest using length_dropWhile_le [of nb xs] by simp
  then show ?thesis using lt t by simp
qed

lemma inlineStyle_unfold:
  "inlineStyle ev readFileSync urlResolver s =
     (case styleUrls_match s of
        Some (l, rest) \<Rightarrow>
          (case style_replacer ev readFileSync urlResolver (take (length s - length rest) s) (Some l) of
             Inl e \<Rightarrow> Inl e
           | Inr new \<Rightarrow>
               (case inlineStyle ev readFileSync urlResolver rest of
                  Inl e \<Rightarrow> Inl e
                | Inr out \<Rightarrow> Inr (new @ out)))
      | None \<Rightarrow>
          (case s of [] \<Rightarrow> Inr []
           | x # xs \<Rightarrow>
               (case inlineStyle ev readFileSync urlResolver xs of
                  Inl e \<Rightarrow> Inl e
                | Inr out \<Rightarrow> Inr (x # out))))"
proof (cases "styleUrls_match s")
  case None
  then have "exec styleUrls_re s = None" by (simp add: exec_styleUrls)
  then have "scan styleUrls_re s = (case s of [] \<Rightarrow> [] | x # xs \<Rightarrow> Plain x # scan styleUrls_re xs)"
    by (subst scan.simps) simp
  then show ?thesis using None
    by (simp add: inlineStyle_def replace_fn_def split: list.splits)
next
  case (Some a)
  obtain l rest where a: "a = (l, rest)" by (cases a)
  have e: "exec styleUrls_re s = Some (Some l, rest)"
    using Some a by (simp add: exec_styleUrls)
  have len: "length rest < length s"
    using Some a styleUrls_match_shorter by simp
  show ?thesis
    unfolding inlineStyle_def replace_fn_hit [OF e len] Some a by simp
qed

lemma styleUrls_match_declaration:
  assumes ws: "list_all is_space ws" and body: "cu (CHR 0x5D) \<notin> set body"
  shows "styleUrls_match (js ''styleUrls:'' @ ws @ [cu (CHR 0x5B)] @ body @ [cu (CHR 0x5D)] @ post)
    = Some ([cu (CHR 0x5B)] @ body @ [cu (CHR 0x5D)], post)"
proof -
  have l: "length ''styleUrls:'' = length (js ''styleUrls:'')" by (simp add: js_def)
  have d: "drop (length ''styleUrls:'')
       (js ''styleUrls:'' @ ws @ [cu (CHR 0x5B)] @ body @ [cu (CHR 0x5D)] @ post)
      = ws @ cu (CHR 0x5B) # body @ rb # post"
    unfolding l by simp
  have dw: "dropWhile is_space (ws @ cu (CHR 0x5B) # body @ rb # post) = cu (CHR 0x5B) # body @ rb # post"
    using ws by (rule dropWhile_all) (simp add: cu_def is_space_def)
  have all: "\<forall>x\<in>set body. nb x" using body by auto
  have tw: "takeWhile nb (body @ rb # post) = body" "dropWhile nb (body @ rb # post) = rb # post"
    using all by (rule takeWhile_stop, simp)+
  show ?thesis
    unfolding styleUrls_match_def d dw
    by (simp only: prefixI [OF refl] if_True list.case tw Let_def) simp
qed

lemma map_e_style_of:
  assumes "list_all2 (\<lambda>url content. \<exists>file. urlResolver url = Inr file \<and> readFileSync file = Inr content)
     urls contents"
  shows "map_e (style_of readFileSync urlResolver) urls =
    Inr (map (\<lambda>content. [cu (CHR 0x22)] @ escape_quotes (collapse_breaks content) @ [cu (CHR 0x22)])
      contents)"
  using assms
  by (induction urls contents rule: list_all2_induct) (auto simp add: style_of_def shorten_eq)

lemmas run_simps = templateUrl_match_def styleUrls_match_def template_replacer_def
  shorten_eq escape_quotes_def is_newline_def js_def cu_def is_space_def

lemmas style_simps = style_replacer_def style_of_def js_eval_def

lemmas match_simps = exec_moduleId exec_templateUrl exec_styleUrls moduleId_match_def
  templateUrl_match_def styleUrls_match_def moduleId_tail_def js_def cu_def is_space_def

section \<open>The module cache and the chain of extends\<close>

lemma grows_refl: "grows w w"
  by (simp add: grows_def)

lemma grows_trans: "grows w w1 \<Longrightarrow> grows w1 w2 \<Longrightarrow> grows w w2"
  by (simp add: grows_def)


lemma grows_store: "grows w (store fl doc w)"
  by (simp add: grows_def store_def split: option.splits)


lemma grows_require: "grows w (snd (require env fl w))"
  by (auto simp add: grows_def require_def Let_def split: option.splits disk_file.splits)


lemma grows_resolve_prop: "grows w (snd (resolve_prop env dir fl prop doc w))"
  by (auto simp add: resolve_prop_def grows_refl grows_store Let_def split: option.splits json.splits)


lemma grows_resolve_dirs: "grows w (snd (resolve_dirs env dir fl doc w))"
proof -
  obtain r w1 where 1: "resolve_prop env dir fl (js ''outDir'') doc w = (r, w1)"
    by (cases "resolve_prop env dir fl (js ''outDir'') doc w")
  have g1: "grows w w1" using grows_resolve_prop [of w env dir fl "js ''outDir''" doc] 1 by simp
  show ?thesis
  proof (cases r)
    case (Inl e)
    then show ?thesis using 1 g1 by (simp add: resolve_dirs_def)
  next
    case (Inr doc1)
    have "grows w1 (snd (resolve_prop env dir fl (js ''rootDir'') doc1 w1))"
      by (rule grows_resolve_prop)
    then show ?thesis using 1 g1 Inr by (simp add: resolve_dirs_def grows_trans)
  qed
qed


lemma grows_readTsconfig: "grows w (snd (readTsconfig n env p w))"
proof (induction n arbitrary: p w)
  case 0
  show ?case by (simp add: grows_refl)
next
  case (Suc n)
  let ?fl = "resolve env (script_dir env) p"
  obtain r w1 where rq: "require env ?fl w = (r, w1)" by (cases "require env ?fl w")
  have g1: "grows w w1" using grows_require [of w env ?fl] rq by simp
  show ?case
  proof (cases r)
    case (Inl e)
    then show ?thesis using rq g1 by (simp add: Let_def)
  next
    case (Inr doc)
    let ?doc1 = "doc\<lparr>compilerOptions := Some (options doc)\<rparr>"
    let ?w2 = "store ?fl ?doc1 w1"
    have g2: "grows w ?w2" using g1 grows_store grows_trans by blast
    have direct: "grows w (snd (resolve_dirs env (dirname env p) ?fl ?doc1 ?w2))"
      using g2 grows_resolve_dirs grows_trans by blast
    show ?thesis
    proof (cases "extends doc")
      case None
      then show ?thesis using rq Inr direct by (simp add: Let_def)
    next
      case (Some ext)
      show ?thesis
      proof (cases "truthy ext")
        case False
        then show ?thesis using rq Inr Some direct by (simp add: Let_def)
      next
        case True
        show ?thesis
        proof (cases ext)
          case (JStr parent)
          obtain r3 w3 where rec: "readTsconfig n env (resolve env (dirname env p) parent) ?w2 = (r3, w3)"
            by (cases "readTsconfig n env (resolve env (dirname env p) parent) ?w2")
          have g3: "grows w w3"
            using Suc.IH [of ?w2 "resolve env (dirname env p) parent"] rec g2 grows_trans by fastforce
          show ?thesis
          proof (cases r3)
            case (Inl e)
            then show ?thesis using rq Inr Some True JStr rec g3 by (simp add: Let_def)
          next
            case (Inr pdoc)
            let ?doc2 = "?doc1\<lparr>compilerOptions := Some (options pdoc ++ options ?doc1)\<rparr>"
            have "grows w3 (store ?fl ?doc2 w3)" by (rule grows_store)
            moreover have "grows (store ?fl ?doc2 w3)
                (snd (resolve_dirs env (dirname env p) ?fl ?doc2 (store ?fl ?doc2 w3)))"
              by (rule grows_resolve_dirs)
            ultimately have "grows w (snd (resolve_dirs env (dirname env p) ?fl ?doc2 (store ?fl ?doc2 w3)))"
              using g3 grows_trans by blast
            then show ?thesis using rq \<open>r = Inr doc\<close> Some True JStr rec Inr by (simp add: Let_def)
          qed
        qed (use rq Inr Some True g2 in \<open>simp_all add: Let_def\<close>)
      qed
    qed
  qed
qed


lemmas posix_simps = posix_def posix_resolve_def posix_dirname_def posix_relative_def posix_join3_def
  abs_path_def js_def cu_def

lemma same_view_refl: "same_view env w w"
  by (simp add: same_view_def)

lemma same_view_trans: "same_view env w w1 \<Longrightarrow> same_view env w1 w2 \<Longrightarrow> same_view env w w2"
  by (simp add: same_view_def)

lemma same_view_None: "same_view env w w' \<Longrightarrow> lookup env w f = None \<Longrightarrow> lookup env w' f = None"
  by (metis map_option_is_None same_view_def)

lemma find_path_kept:
  "find_path env r (w\<lparr>paths := (paths w)(fl \<mapsto> f)\<rparr>) = (if r = fl then Some f else find_path env r w)"
  by (simp add: find_path_def split: option.splits)

lemma find_path_cache: "find_path env r (w\<lparr>cache := c\<rparr>) = find_path env r w"
  by (simp add: find_path_def split: option.splits)

lemma require_found:
  assumes "require env fl w = (Inr doc, w1)"
  shows "\<exists>f. find_path env fl w = Some f \<and> paths w1 fl = Some f \<and> lookup env w fl = Some doc \<and>
    (\<forall>r. lookup env w1 r = lookup env w r)"
proof -
  from assms obtain f where f: "find_path env fl w = Some f"
    by (auto simp add: require_def split: option.splits)
  let ?w' = "w\<lparr>paths := (paths w)(fl \<mapsto> f)\<rparr>"
  have same: "lookup env ?w' r = lookup env w r" for r
    using f by (simp add: lookup_def find_path_kept split: option.splits disk_file.splits)
  show ?thesis
  proof (cases "cache w f")
    case (Some d)
    then have "doc = d" "w1 = ?w'"
      using assms f by (simp_all add: require_def Let_def)
    then show ?thesis using f Some same by (simp add: lookup_def)
  next
    case None
    then have d: "disk w f = Exports doc" and w1: "w1 = ?w'\<lparr>cache := (cache w)(f \<mapsto> doc)\<rparr>"
      using assms f by (auto simp add: require_def Let_def split: disk_file.splits)
    have "lookup env w1 r = lookup env w r" for r
    proof (cases "find_path env r ?w'")
      case None
      then show ?thesis using same [of r] unfolding w1 by (simp add: lookup_def find_path_cache)
    next
      case (Some g)
      show ?thesis
      proof (cases "g = f")
        case True
        have "lookup env ?w' r = Some doc"
          using Some True \<open>cache w f = None\<close> d by (simp add: lookup_def)
        moreover have "lookup env w1 r = Some doc"
          unfolding w1 using Some True by (simp add: lookup_def find_path_cache)
        ultimately show ?thesis using same [of r] by simp
      next
        case False
        have "lookup env w1 r = lookup env ?w' r"
          unfolding w1 using Some False
          by (simp add: lookup_def find_path_cache split: option.splits disk_file.splits)
        then show ?thesis using same [of r] by simp
      qed
    qed
    moreover have "lookup env w fl = Some doc"
      using f None d by (simp add: lookup_def)
    ultimately show ?thesis using f w1 by simp
  qed
qed

lemma require_lookup:
  "require env fl w = (Inr doc, w1) \<Longrightarrow>
   lookup env w fl = Some doc \<and> lookup env w1 fl = Some doc \<and> same_view env w w1"
  using require_found [of env fl w doc w1] by (auto simp add: same_view_def)

lemma require_supplied:
  "lookup env w fl = Some doc \<Longrightarrow> \<exists>w1. require env fl w = (Inr doc, w1)"
  by (auto simp add: require_def lookup_def Let_def split: option.splits disk_file.splits)

lemma require_missing:
  "lookup env w fl = None \<Longrightarrow> \<exists>e w1. require env fl w = (Inl e, w1) \<and> loader_error w e"
  by (auto simp add: require_def lookup_def loader_error_def Let_def
      split: option.splits disk_file.splits)

lemma same_view_store:
  assumes "lookup env w fl = Some doc'" and "extends doc = extends doc'"
  shows "same_view env w (store fl doc w)"
proof (cases "paths w fl")
  case None
  then show ?thesis by (simp add: store_def same_view_refl)
next
  case (Some f)
  then have fl: "find_path env fl w = Some f" by (simp add: find_path_def)
  have "map_option extends (lookup env (w\<lparr>cache := (cache w)(f \<mapsto> doc)\<rparr>) r)
      = map_option extends (lookup env w r)" for r
  proof (cases "find_path env r w = Some f")
    case True
    then have "lookup env w r = lookup env w fl" using fl by (simp add: lookup_def)
    moreover have "lookup env (w\<lparr>cache := (cache w)(f \<mapsto> doc)\<rparr>) r = Some doc"
      using True by (simp add: lookup_def find_path_cache)
    ultimately show ?thesis using assms by simp
  next
    case False
    then show ?thesis
      by (cases "find_path env r w")
        (simp_all add: lookup_def find_path_cache split: option.splits disk_file.splits)
  qed
  then show ?thesis using Some by (simp add: store_def same_view_def)
qed

lemma extends_chain_view:
  "same_view env w w' \<Longrightarrow> extends_chain n env w' p = extends_chain n env w p"
proof (induction n arbitrary: p)
  case 0
  show ?case by simp
next
  case (Suc n)
  let ?fl = "resolve env (script_dir env) p"
  have "map_option extends (lookup env w' ?fl) = map_option extends (lookup env w ?fl)"
    using Suc.prems by (simp add: same_view_def)
  then show ?case using Suc.IH [OF Suc.prems]
    by (cases "lookup env w ?fl"; cases "lookup env w' ?fl") (auto split: option.splits json.splits)
qed

lemma loader_error_grows: "grows w w' \<Longrightarrow> loader_error w' e \<Longrightarrow> loader_error w e"
  by (simp add: grows_def loader_error_def)

lemma readTsconfig_missing:
  assumes "\<exists>f\<in>set (extends_chain n env w p). lookup env w f = None"
  shows "\<exists>e. fst (readTsconfig n env p w) = Inl e \<and> loader_error w e"
  using assms
proof (induction n arbitrary: p w)
  case 0
  then show ?case by simp
next
  case (Suc n)
  let ?fl = "resolve env (script_dir env) p"
  show ?case
  proof (cases "lookup env w ?fl")
    case None
    then obtain e w1 where "require env ?fl w = (Inl e, w1)" "loader_error w e"
      using require_missing by blast
    then show ?thesis by (auto simp add: Let_def)
  next
    case (Some doc)
    then obtain w1 where rq: "require env ?fl w = (Inr doc, w1)"
      using require_supplied by blast
    from Suc.prems Some have
      "\<exists>f parent. extends doc = Some (JStr parent) \<and> parent \<noteq> [] \<and>
         f \<in> set (extends_chain n env w (resolve env (dirname env p) parent)) \<and> lookup env w f = None"
      by (cases "extends doc") (auto split: json.splits if_splits)
    then obtain f parent where
      ext: "extends doc = Some (JStr parent)" "parent \<noteq> []"
      and f: "f \<in> set (extends_chain n env w (resolve env (dirname env p) parent))" "lookup env w f = None"
      by blast
    let ?doc1 = "doc\<lparr>compilerOptions := Some (options doc)\<rparr>"
    let ?w2 = "store ?fl ?doc1 w1"
    have v1: "same_view env w w1" and l1: "lookup env w1 ?fl = Some doc"
      using require_lookup [OF rq] by simp_all
    have "same_view env w1 ?w2" using l1 by (rule same_view_store) simp
    then have v2: "same_view env w ?w2" using v1 same_view_trans by blast
    have g2: "grows w ?w2"
      using grows_require [of w env ?fl] rq grows_store grows_trans by fastforce
    have "\<exists>f\<in>set (extends_chain n env ?w2 (resolve env (dirname env p) parent)). lookup env ?w2 f = None"
      using f extends_chain_view [OF v2, of n] same_view_None [OF v2, of f] by (intro bexI [of _ f]) simp_all
    then obtain e where "fst (readTsconfig n env (resolve env (dirname env p) parent) ?w2) = Inl e"
      "loader_error ?w2 e"
      using Suc.IH by blast
    then show ?thesis using rq ext loader_error_grows [OF g2]
      by (auto simp add: Let_def split: prod.splits sum.splits)
  qed
qed

lemma inlineResources_config_error:
  assumes "fst (readTsconfig depth env (resolve env (script_dir env) tsconfigPath) w) = Inl e"
  shows "fst (inlineResources ev depth env tsconfigPath w) = Inl e \<and>
    files (snd (inlineResources ev depth env tsconfigPath w)) = files w \<and>
    console (snd (inlineResources ev depth env tsconfigPath w)) = console w"
proof -
  obtain w1 where r: "readTsconfig depth env (resolve env (script_dir env) tsconfigPath) w = (Inl e, w1)"
    using assms by (cases "readTsconfig depth env (resolve env (script_dir env) tsconfigPath) w") auto
  have "grows w w1"
    using grows_readTsconfig [of w depth env "resolve env (script_dir env) tsconfigPath"] r by simp
  then show ?thesis using r by (simp add: inlineResources_def grows_def)
qed



section \<open>The units of work of the files\<close>

lemma process_file_same_files:
  assumes "same_files w w'"
  shows "same_files (process_file ev env rootDir outDir w filePath)
    (process_file ev env rootDir outDir w' filePath)"
  using assms
  by (auto simp add: same_files_def process_file_def writeFile_def split: sum.splits)

lemma foldl_same_files:
  "same_files w w' \<Longrightarrow>
   same_files (foldl (process_file ev env rootDir outDir) w fs)
     (foldl (process_file ev env rootDir outDir) w' fs)"
proof (induction fs arbitrary: w w')
  case Nil
  then show ?case by simp
next
  case (Cons f fs)
  then show ?case using process_file_same_files by simp
qed

lemma process_file_failed:
  "unit_error ev env rootDir outDir w filePath = Some err \<Longrightarrow>
   process_file ev env rootDir outDir w filePath = w\<lparr>console := console w @ [err]\<rparr>"
  by (auto simp add: unit_error_def process_file_def split: sum.splits)

lemma console_process_file:
  "set (console w) \<subseteq> set (console (process_file ev env rootDir outDir w filePath))"
  by (auto simp add: process_file_def writeFile_def split: sum.splits if_splits)

lemma console_foldl:
  "set (console w) \<subseteq> set (console (foldl (process_file ev env rootDir outDir) w fs))"
proof (induction fs arbitrary: w)
  case Nil
  show ?case by simp
next
  case (Cons f fs)
  show ?case using console_process_file Cons.IH by (simp, blast)
qed

section \<open>Claims about removeModuleId\<close>

text \<open>
  C3. \<^verbatim>\<open>removeModuleId\<close> removes an occurrence of the marker \<^verbatim>\<open>moduleId: module.id\<close>
  together with the white space around it and the comma after it, wherever it stands: the
  text \<open>pre\<close> before it, in which no match starts, is kept as it is, nothing is put in
  the place of the marker, and removal goes on in the text \<open>post\<close> after it in the same
  way, so that every later occurrence is removed as well. The properties that follow the
  marker keep their text: \<open>post\<close> starts at the first code unit after the marker that is
  neither white space nor the marker's comma.
\<close>

theorem removeModuleId_marker:
  assumes ws: "list_all is_space ws1" "list_all is_space ws2" "list_all is_space ws3" "list_all is_space ws4"
    and sep: "sep = [] \<or> sep = js '',''"
    and post: "case post of [] \<Rightarrow> True | x # _ \<Rightarrow> \<not> is_space x \<and> (sep = [] \<longrightarrow> x \<noteq> cu CHR '','')"
    and pre: "no_start moduleId_re pre
       (ws1 @ js ''moduleId:'' @ ws2 @ js ''module.id'' @ ws3 @ sep @ ws4 @ post)"
  shows "removeModuleId (pre @ ws1 @ js ''moduleId:'' @ ws2 @ js ''module.id'' @ ws3 @ sep @ ws4 @ post)
     = pre @ removeModuleId post"
proof -
  let ?u = "ws1 @ js ''moduleId:'' @ ws2 @ js ''module.id'' @ ws3 @ sep @ ws4 @ post"
  have "moduleId_match ?u = Some (moduleId_tail (ws3 @ sep @ ws4 @ post))"
    using ws(1,2) by (rule moduleId_match_core)
  then have m: "moduleId_match ?u = Some post"
    using moduleId_tail_span [OF ws(3) ws(4) sep post] by simp
  then have e: "exec moduleId_re ?u = Some (None, post)"
    by (simp add: exec_moduleId)
  have len: "length post < length ?u"
    using moduleId_match_shorter [OF m] .
  show ?thesis
    unfolding removeModuleId_def
    using replace_str_no_start [OF pre, of "[]"] replace_str_hit [OF e len, of "[]"]
    by simp
qed

theorem removeModuleId_marker_witness:
  "no_start moduleId_re (js ''{a: 1,'')
     ([0x0A, 0x20] @ js ''moduleId:'' @ [0x20] @ js ''module.id'' @ [] @ js '','' @ [0x0A, 0x20]
        @ js ''b: 2, moduleId: module.id, c: 3}'') \<and>
   removeModuleId (js ''{a: 1,'' @ [0x0A, 0x20] @ js ''moduleId:'' @ [0x20] @ js ''module.id''
       @ [] @ js '','' @ [0x0A, 0x20] @ js ''b: 2, moduleId: module.id, c: 3}'')
     = js ''{a: 1,b: 2,c: 3}''"
proof -
  have pre: "no_start moduleId_re (js ''{a: 1,'')
     ([0x0A, 0x20] @ js ''moduleId:'' @ [0x20] @ js ''module.id'' @ [] @ js '','' @ [0x0A, 0x20]
        @ js ''b: 2, moduleId: module.id, c: 3}'')"
    by (simp add: exec_moduleId eval_simps)
  have post: "removeModuleId (js ''b: 2, moduleId: module.id, c: 3}'') = js ''b: 2,c: 3}''"
    by (simp add: removeModuleId_unfold eval_simps)
  show ?thesis
    using pre post
      removeModuleId_marker [of "[0x0A, 0x20]" "[0x20]" "[]" "[0x0A, 0x20]" "js '',''"
        "js ''b: 2, moduleId: module.id, c: 3}''" "js ''{a: 1,''"]
    by (simp add: eval_simps)
qed

text \<open>
  C10. The white space \<open>ws\<close> that stands immediately before a marker belongs to the
  removed span: when a match of the expression starts at \<open>u\<close> and ends before \<open>rest\<close>,
  the text \<open>pre\<close> before the white space, in which no match starts, and the text \<open>rest\<close>
  after the match become adjacent, and \<open>pre\<close> is unchanged.
\<close>

theorem removeModuleId_adjacent:
  assumes ws: "list_all is_space ws"
    and m: "exec moduleId_re u = Some (cap, rest)"
    and pre: "no_start moduleId_re pre (ws @ u)"
  shows "removeModuleId (pre @ ws @ u) = pre @ removeModuleId rest"
proof -
  from m have mm: "moduleId_match u = Some rest"
    by (auto simp add: exec_moduleId)
  then have "moduleId_match (ws @ u) = Some rest"
    using ws by (simp add: moduleId_match_space)
  then have e: "exec moduleId_re (ws @ u) = Some (None, rest)"
    and l: "length rest < length (ws @ u)"
    using moduleId_match_shorter [of "ws @ u" rest] by (simp_all add: exec_moduleId)
  show ?thesis
    unfolding removeModuleId_def
    using replace_str_no_start [OF pre, of "[]"] replace_str_hit [OF e l, of "[]"]
    by simp
qed

theorem removeModuleId_adjacent_witness:
  "exec moduleId_re (js ''moduleId: module.id, b: 2'') = Some (None, js ''b: 2'') \<and>
   removeModuleId (js ''a: 1,'' @ [0x0A, 0x20, 0x20] @ js ''moduleId: module.id, b: 2'')
     = js ''a: 1,b: 2''"
proof -
  have m: "exec moduleId_re (js ''moduleId: module.id, b: 2'') = Some (None, js ''b: 2'')"
    by (simp add: exec_moduleId eval_simps)
  have pre: "no_start moduleId_re (js ''a: 1,'') ([0x0A, 0x20, 0x20] @ js ''moduleId: module.id, b: 2'')"
    by (simp add: exec_moduleId eval_simps)
  have ws: "list_all is_space [0x0A, 0x20, 0x20]"
    by (simp add: is_space_def)
  have rest: "removeModuleId (js ''b: 2'') = js ''b: 2''"
    by (simp add: removeModuleId_unfold eval_simps)
  show ?thesis
    using m rest removeModuleId_adjacent [OF ws m pre] by (simp add: js_def)
qed

section \<open>Claims about inlineTemplate\<close>

text \<open>
  C1, as the code has it. A declaration \<^verbatim>\<open>templateUrl: '<stem>.html'\<close> (any white space
  after the colon, a path without a quote) whose path resolves to a readable file is
  replaced by \<^verbatim>\<open>template: "<text>"\<close>, where the text is the content of the file with
  every line break, together with the white space that follows it, replaced by one space,
  and with a backslash put before every double quote. White space that stands before a
  line break is kept. When no double quote of the content stands directly after a
  backslash, every double quote of the text is escaped: none of them ends the literal.
  The text \<open>pre\<close> before the declaration, in which no match starts, is unchanged, and the
  pass goes on in the text \<open>post\<close> after it.
\<close>

theorem inlineTemplate_declaration:
  assumes ws: "list_all is_space ws"
    and stem: "stem \<noteq> []" "cu (CHR 0x27) \<notin> set stem"
    and res: "urlResolver (stem @ js ''.html'') = Inr templateFile"
    and rd: "readFileSync templateFile = Inr templateContent"
    and pre: "no_start templateUrl_re pre
       (js ''templateUrl:'' @ ws @ [cu (CHR 0x27)] @ stem @ js ''.html'' @ [cu (CHR 0x27)] @ post)"
  shows "inlineTemplate readFileSync urlResolver
       (pre @ js ''templateUrl:'' @ ws @ [cu (CHR 0x27)] @ stem @ js ''.html'' @ [cu (CHR 0x27)] @ post)
     = (case inlineTemplate readFileSync urlResolver post of
          Inl e \<Rightarrow> Inl e
        | Inr rest \<Rightarrow>
            Inr (pre @ js ''template: '' @ [cu (CHR 0x22)]
                   @ escape_quotes (collapse_breaks templateContent) @ [cu (CHR 0x22)] @ rest)) \<and>
    (\<not> quote_after_backslash templateContent \<longrightarrow>
       \<not> raw_quote (escape_quotes (collapse_breaks templateContent)))"
proof -
  let ?u = "js ''templateUrl:'' @ ws @ [cu (CHR 0x27)] @ stem @ js ''.html'' @ [cu (CHR 0x27)] @ post"
  have e: "exec templateUrl_re ?u = Some (Some (stem @ js ''.html''), post)"
    unfolding exec_templateUrl templateUrl_match_declaration [OF ws stem] by simp
  have l: "length post < length ?u" by simp
  have r: "template_replacer readFileSync urlResolver m (Some (stem @ js ''.html'')) =
    Inr (js ''template: '' @ [cu (CHR 0x22)] @ escape_quotes (collapse_breaks templateContent)
           @ [cu (CHR 0x22)])" for m
    using res rd by (rule template_replacer_ok)
  have "inlineTemplate readFileSync urlResolver (pre @ ?u)
     = (case inlineTemplate readFileSync urlResolver post of
          Inl e \<Rightarrow> Inl e
        | Inr rest \<Rightarrow>
            Inr (pre @ js ''template: '' @ [cu (CHR 0x22)]
                   @ escape_quotes (collapse_breaks templateContent) @ [cu (CHR 0x22)] @ rest))"
    unfolding inlineTemplate_def replace_fn_no_start [OF pre] replace_fn_hit [OF e l] r
    by (simp split: sum.splits)
  then show ?thesis using shortened_quotes by blast
qed

text \<open>
  The example of the specification, the content \<^verbatim>\<open><div>\n  Hi\n</div>\<close>, and a content
  with double quotes, \<^verbatim>\<open><a id="x">\n</a>\<close>.
\<close>

theorem inlineTemplate_declaration_witness:
  "inlineTemplate ex_reader ex_resolver
      (js ''templateUrl: '' @ [cu (CHR 0x27)] @ js ''a.html'' @ [cu (CHR 0x27)])
     = Inr (js ''template: '' @ [cu (CHR 0x22)] @ js ''<div> Hi </div>'' @ [cu (CHR 0x22)]) \<and>
   inlineTemplate ex_reader ex_resolver
      (js ''templateUrl: '' @ [cu (CHR 0x27)] @ js ''c.html'' @ [cu (CHR 0x27)])
     = Inr (js ''template: '' @ [cu (CHR 0x22)]
         @ js ''<a id='' @ [cu (CHR 0x5C), cu (CHR 0x22)] @ js ''x'' @ [cu (CHR 0x5C), cu (CHR 0x22)]
         @ js ''> </a>'' @ [cu (CHR 0x22)]) \<and>
   \<not> raw_quote (js ''<a id='' @ [cu (CHR 0x5C), cu (CHR 0x22)] @ js ''x''
       @ [cu (CHR 0x5C), cu (CHR 0x22)] @ js ''> </a>'')"
proof -
  have post: "inlineTemplate ex_reader ex_resolver [] = Inr []"
    by (simp add: inlineTemplate_unfold run_simps)
  have a: "escape_quotes (collapse_breaks (js ''<div>'' @ [0x0A] @ js ''  Hi'' @ [0x0A] @ js ''</div>''))
      = js ''<div> Hi </div>''"
    by (simp add: run_simps)
  have c: "escape_quotes (collapse_breaks
        (js ''<a id='' @ [cu (CHR 0x22)] @ js ''x'' @ [cu (CHR 0x22)] @ js ''>'' @ [0x0A] @ js ''</a>''))
      = js ''<a id='' @ [cu (CHR 0x5C), cu (CHR 0x22)] @ js ''x'' @ [cu (CHR 0x5C), cu (CHR 0x22)]
          @ js ''> </a>''"
    by (simp add: run_simps)
  have q: "\<not> quote_after_backslash
        (js ''<a id='' @ [cu (CHR 0x22)] @ js ''x'' @ [cu (CHR 0x22)] @ js ''>'' @ [0x0A] @ js ''</a>'')"
    by (simp add: js_def cu_def)
  show ?thesis
    using post a c q
      inlineTemplate_declaration [of "js '' ''" "js ''a''" ex_resolver "js ''src/a.html''" ex_reader
        "js ''<div>'' @ [0x0A] @ js ''  Hi'' @ [0x0A] @ js ''</div>''" "[]" "[]"]
      inlineTemplate_declaration [of "js '' ''" "js ''c''" ex_resolver "js ''src/c.html''" ex_reader
        "js ''<a id='' @ [cu (CHR 0x22)] @ js ''x'' @ [cu (CHR 0x22)] @ js ''>'' @ [0x0A] @ js ''</a>''"
        "[]" "[]"]
    by (simp add: ex_reader_def ex_resolver_def js_def cu_def is_space_def)
qed

text \<open>
  C1 as stated fails where white space stands before the line break: the content
  \<^verbatim>\<open>a \nb\<close>, a run of white space with a line break in it between \<^verbatim>\<open>a\<close> and \<^verbatim>\<open>b\<close>, is
  inlined with two spaces, not one. It fails as well for a double quote that stands after
  a backslash: the content \<^verbatim>\<open>a\"b\<close> is inlined as \<^verbatim>\<open>a\\"b\<close>, where the two backslashes
  are one escaped backslash and the double quote after them ends the literal.
\<close>

theorem inlineTemplate_run_counterexample:
  "inlineTemplate ex_reader ex_resolver
      (js ''templateUrl: '' @ [cu (CHR 0x27)] @ js ''b.html'' @ [cu (CHR 0x27)])
     = Inr (js ''template: '' @ [cu (CHR 0x22)] @ js ''a  b'' @ [cu (CHR 0x22)]) \<and>
   inlineTemplate ex_reader ex_resolver
      (js ''templateUrl: '' @ [cu (CHR 0x27)] @ js ''b.html'' @ [cu (CHR 0x27)])
     \<noteq> Inr (js ''template: '' @ [cu (CHR 0x22)] @ js ''a b'' @ [cu (CHR 0x22)]) \<and>
   inlineTemplate ex_reader ex_resolver
      (js ''templateUrl: '' @ [cu (CHR 0x27)] @ js ''d.html'' @ [cu (CHR 0x27)])
     = Inr (js ''template: '' @ [cu (CHR 0x22)]
         @ js ''a'' @ [cu (CHR 0x5C), cu (CHR 0x5C), cu (CHR 0x22)] @ js ''b'' @ [cu (CHR 0x22)]) \<and>
   raw_quote (js ''a'' @ [cu (CHR 0x5C), cu (CHR 0x5C), cu (CHR 0x22)] @ js ''b'')"
  by (simp add: inlineTemplate_unfold run_simps ex_reader_def ex_resolver_def suffix_def)

text \<open>
  C8, as the code has it. A declaration whose value does not start with a single quote
  (another delimiter \<open>d\<close>), or whose single-quoted path has an escaped single quote
  \<^verbatim>\<open>\'\<close> before any other single quote, is not matched, and the pass leaves
  \<^verbatim>\<open>templateUrl:\<close> and the white space after it as they are: the value \<open>v\<close> and what follows
  it are treated as any other text, and come out unchanged when no match starts in them.
\<close>

theorem inlineTemplate_not_matched:
  assumes ws: "list_all is_space ws"
    and v: "(v = d # rest \<and> \<not> is_space d \<and> d \<noteq> cu (CHR 0x27)) \<or>
       (v = [cu (CHR 0x27)] @ a @ [cu (CHR 0x5C), cu (CHR 0x27)] @ rest \<and> cu (CHR 0x27) \<notin> set a)"
    and pre: "no_start templateUrl_re pre (js ''templateUrl:'' @ ws @ v)"
  shows "exec templateUrl_re (js ''templateUrl:'' @ ws @ v) = None \<and>
    inlineTemplate readFileSync urlResolver (pre @ js ''templateUrl:'' @ ws @ v)
     = (case inlineTemplate readFileSync urlResolver v of
          Inl e \<Rightarrow> Inl e
        | Inr out \<Rightarrow> Inr (pre @ js ''templateUrl:'' @ ws @ out)) \<and>
    (no_match templateUrl_re v \<longrightarrow>
       inlineTemplate readFileSync urlResolver (pre @ js ''templateUrl:'' @ ws @ v)
         = Inr (pre @ js ''templateUrl:'' @ ws @ v))"
proof -
  have m: "templateUrl_match (js ''templateUrl:'' @ ws @ v) = None"
    using v
  proof (elim disjE conjE)
    assume v: "v = d # rest" and nd: "\<not> is_space d" "d \<noteq> cu (CHR 0x27)"
    have "templateUrl_match (js ''templateUrl:'' @ ws @ d # rest) = None"
      using ws by (subst templateUrl_match_head) (simp_all add: nd)
    then show ?thesis unfolding v .
  next
    assume v: "v = [cu (CHR 0x27)] @ a @ [cu (CHR 0x5C), cu (CHR 0x27)] @ rest"
      and a: "cu (CHR 0x27) \<notin> set a"
    have all: "\<forall>x\<in>set (a @ [cu (CHR 0x5C)]). nq x"
      using a by (auto simp add: cu_def)
    have tw: "takeWhile nq ((a @ [cu (CHR 0x5C)]) @ q27 # rest) = a @ [cu (CHR 0x5C)]"
      using all by (rule takeWhile_stop) simp
    have ns: "\<not> suffix (js ''.html'') (tl (a @ [cu (CHR 0x5C)]))"
      by (cases a) (auto simp add: suffix_def js_def cu_def)
    have sp: "case q27 # (a @ [cu (CHR 0x5C)]) @ q27 # rest of [] \<Rightarrow> True | x # _ \<Rightarrow> \<not> is_space x"
      by (simp add: cu_def is_space_def)
    have "templateUrl_match (js ''templateUrl:'' @ ws @ q27 # (a @ [cu (CHR 0x5C)]) @ q27 # rest) = None"
      unfolding templateUrl_match_head [OF ws sp]
      by (simp only: list.case if_True tw Let_def ns simp_thms if_False)
    then show ?thesis unfolding v by simp
  qed
  have ns: "no_start templateUrl_re (pre @ js ''templateUrl:'' @ ws) v"
    using pre templateUrl_head_no_start [OF ws m] by (simp add: no_start_append)
  have "inlineTemplate readFileSync urlResolver ((pre @ js ''templateUrl:'' @ ws) @ v)
     = (case inlineTemplate readFileSync urlResolver v of
          Inl e \<Rightarrow> Inl e
        | Inr out \<Rightarrow> Inr ((pre @ js ''templateUrl:'' @ ws) @ out))"
    unfolding inlineTemplate_def using ns by (rule replace_fn_no_start)
  then have eq: "inlineTemplate readFileSync urlResolver (pre @ js ''templateUrl:'' @ ws @ v)
     = (case inlineTemplate readFileSync urlResolver v of
          Inl e \<Rightarrow> Inl e
        | Inr out \<Rightarrow> Inr (pre @ js ''templateUrl:'' @ ws @ out))"
    by (simp split: sum.splits)
  have "inlineTemplate readFileSync urlResolver v = Inr v" if "no_match templateUrl_re v"
    unfolding inlineTemplate_def using that by (rule replace_fn_no_match)
  then show ?thesis using m eq by (simp add: exec_templateUrl)
qed

theorem inlineTemplate_not_matched_witness:
  "inlineTemplate ex_reader ex_resolver
      (js ''x, templateUrl: '' @ [cu (CHR 0x22)] @ js ''a.html'' @ [cu (CHR 0x22)])
     = Inr (js ''x, templateUrl: '' @ [cu (CHR 0x22)] @ js ''a.html'' @ [cu (CHR 0x22)]) \<and>
   inlineTemplate ex_reader ex_resolver
      (js ''templateUrl: '' @ [cu (CHR 0x27)] @ js ''a'' @ [cu (CHR 0x5C), cu (CHR 0x27)]
         @ js ''b.html'' @ [cu (CHR 0x27)])
     = Inr (js ''templateUrl: '' @ [cu (CHR 0x27)] @ js ''a'' @ [cu (CHR 0x5C), cu (CHR 0x27)]
         @ js ''b.html'' @ [cu (CHR 0x27)])"
proof -
  have 1: "inlineTemplate ex_reader ex_resolver ([cu (CHR 0x22)] @ js ''a.html'' @ [cu (CHR 0x22)])
      = Inr ([cu (CHR 0x22)] @ js ''a.html'' @ [cu (CHR 0x22)])"
    by (simp add: inlineTemplate_unfold run_simps)
  have 2: "inlineTemplate ex_reader ex_resolver
        ([cu (CHR 0x27)] @ js ''a'' @ [cu (CHR 0x5C), cu (CHR 0x27)] @ js ''b.html'' @ [cu (CHR 0x27)])
      = Inr ([cu (CHR 0x27)] @ js ''a'' @ [cu (CHR 0x5C), cu (CHR 0x27)] @ js ''b.html'' @ [cu (CHR 0x27)])"
    by (simp add: inlineTemplate_unfold run_simps)
  have p: "no_start templateUrl_re (js ''x, '')
      (js ''templateUrl:'' @ js '' '' @ [cu (CHR 0x22)] @ js ''a.html'' @ [cu (CHR 0x22)])"
    by (simp add: exec_templateUrl run_simps)
  show ?thesis
    using 1 2 p
      inlineTemplate_not_matched [of "js '' ''" "[cu (CHR 0x22)] @ js ''a.html'' @ [cu (CHR 0x22)]"
        "cu (CHR 0x22)" "js ''a.html'' @ [cu (CHR 0x22)]" "[]" "js ''x, ''" ex_reader ex_resolver]
      inlineTemplate_not_matched [of "js '' ''"
        "[cu (CHR 0x27)] @ js ''a'' @ [cu (CHR 0x5C), cu (CHR 0x27)] @ js ''b.html'' @ [cu (CHR 0x27)]"
        "0" "js ''b.html'' @ [cu (CHR 0x27)]" "js ''a''" "[]" ex_reader ex_resolver]
    by (simp add: js_def cu_def is_space_def)
qed

text \<open>
  C8 as stated fails for a path with a double quote in it: the class \<^verbatim>\<open>[^']\<close> leaves out
  the single quote only, so \<^verbatim>\<open>templateUrl: 'a"b.html'\<close> is matched and inlined. It fails
  as well for a single quote that is not escaped when the text before it reads as a
  reference: in \<^verbatim>\<open>templateUrl: 'a.html'b.html'\<close> the match ends at the second quote.
\<close>

theorem inlineTemplate_quote_counterexample:
  "exec templateUrl_re
      (js ''templateUrl: '' @ [cu (CHR 0x27)] @ js ''a'' @ [cu (CHR 0x22)] @ js ''b.html'' @ [cu (CHR 0x27)])
     = Some (Some (js ''a'' @ [cu (CHR 0x22)] @ js ''b.html''), []) \<and>
   inlineTemplate ex_reader ex_resolver
      (js ''templateUrl: '' @ [cu (CHR 0x27)] @ js ''a'' @ [cu (CHR 0x22)] @ js ''b.html'' @ [cu (CHR 0x27)])
     = Inr (js ''template: '' @ [cu (CHR 0x22)] @ js ''<p>x</p>'' @ [cu (CHR 0x22)]) \<and>
   inlineTemplate ex_reader ex_resolver
      (js ''templateUrl: '' @ [cu (CHR 0x27)] @ js ''a'' @ [cu (CHR 0x22)] @ js ''b.html'' @ [cu (CHR 0x27)])
     \<noteq> Inr (js ''templateUrl: '' @ [cu (CHR 0x27)] @ js ''a'' @ [cu (CHR 0x22)] @ js ''b.html''
         @ [cu (CHR 0x27)]) \<and>
   inlineTemplate ex_reader ex_resolver
      (js ''templateUrl: '' @ [cu (CHR 0x27)] @ js ''a.html'' @ [cu (CHR 0x27)] @ js ''b.html''
         @ [cu (CHR 0x27)])
     = Inr (js ''template: '' @ [cu (CHR 0x22)] @ js ''<div> Hi </div>'' @ [cu (CHR 0x22)]
         @ js ''b.html'' @ [cu (CHR 0x27)])"
  by (simp add: exec_templateUrl inlineTemplate_unfold run_simps ex_reader_def ex_resolver_def
      suffix_def)

section \<open>Claims about inlineStyle\<close>

text \<open>
  C2, as the code has it. A declaration \<^verbatim>\<open>styleUrls: [...]\<close> whose array literal has no
  closing bracket before its last character and evaluates to the URLs \<open>urls\<close>, each of
  which resolves to a readable file, is replaced by \<^verbatim>\<open>styles: [...]\<close> listing the
  shortened contents in double quotes in the same order, joined by a comma and a newline;
  an empty array gives \<^verbatim>\<open>styles: []\<close>. A content is shortened as in \<^verbatim>\<open>inlineTemplate\<close>:
  its line breaks are collapsed with the white space after them, and its double quotes
  get a backslash, which escapes every one of them when none stands directly after a
  backslash in the content.
\<close>

theorem inlineStyle_declaration:
  assumes ws: "list_all is_space ws"
    and body: "cu (CHR 0x5D) \<notin> set body"
    and ev: "ev ([cu (CHR 0x5B)] @ body @ [cu (CHR 0x5D)]) = Inr urls"
    and files: "list_all2
       (\<lambda>url content. \<exists>file. urlResolver url = Inr file \<and> readFileSync file = Inr content)
       urls contents"
    and pre: "no_start styleUrls_re pre
       (js ''styleUrls:'' @ ws @ [cu (CHR 0x5B)] @ body @ [cu (CHR 0x5D)] @ post)"
  shows "inlineStyle ev readFileSync urlResolver
       (pre @ js ''styleUrls:'' @ ws @ [cu (CHR 0x5B)] @ body @ [cu (CHR 0x5D)] @ post)
     = (case inlineStyle ev readFileSync urlResolver post of
          Inl e \<Rightarrow> Inl e
        | Inr rest \<Rightarrow>
            Inr (pre @ js ''styles: [''
                   @ join [cu CHR '','', 0x0A]
                       (map (\<lambda>content. [cu (CHR 0x22)] @ escape_quotes (collapse_breaks content)
                                          @ [cu (CHR 0x22)]) contents)
                   @ js '']'' @ rest)) \<and>
    (\<forall>content\<in>set contents. \<not> quote_after_backslash content \<longrightarrow>
       \<not> raw_quote (escape_quotes (collapse_breaks content)))"
proof -
  let ?u = "js ''styleUrls:'' @ ws @ [cu (CHR 0x5B)] @ body @ [cu (CHR 0x5D)] @ post"
  have e: "exec styleUrls_re ?u = Some (Some ([cu (CHR 0x5B)] @ body @ [cu (CHR 0x5D)]), post)"
    unfolding exec_styleUrls styleUrls_match_declaration [OF ws body] by simp
  have l: "length post < length ?u" by simp
  have r: "style_replacer ev readFileSync urlResolver m (Some ([cu (CHR 0x5B)] @ body @ [cu (CHR 0x5D)])) =
    Inr (js ''styles: [''
           @ join [cu CHR '','', 0x0A]
               (map (\<lambda>content. [cu (CHR 0x22)] @ escape_quotes (collapse_breaks content)
                                  @ [cu (CHR 0x22)]) contents)
           @ js '']'')" for m
    unfolding style_replacer_def using ev map_e_style_of [OF files] by simp
  have "inlineStyle ev readFileSync urlResolver (pre @ ?u)
     = (case inlineStyle ev readFileSync urlResolver post of
          Inl e \<Rightarrow> Inl e
        | Inr rest \<Rightarrow>
            Inr (pre @ js ''styles: [''
                   @ join [cu CHR '','', 0x0A]
                       (map (\<lambda>content. [cu (CHR 0x22)] @ escape_quotes (collapse_breaks content)
                                          @ [cu (CHR 0x22)]) contents)
                   @ js '']'' @ rest))"
    unfolding inlineStyle_def replace_fn_no_start [OF pre] replace_fn_hit [OF e l] r
    by (simp split: sum.splits)
  then show ?thesis using shortened_quotes by blast
qed

text \<open>
  The example of the specification, \<^verbatim>\<open>styleUrls: ['a.css', 'b.css']\<close>, the empty array, and
  a style sheet with double quotes, \<^verbatim>\<open>a:after{content:"x"}\<close>.
\<close>

theorem inlineStyle_declaration_witness:
  "inlineStyle js_eval ex_reader ex_resolver
      (js ''styleUrls: ['' @ [cu (CHR 0x27)] @ js ''a.css'' @ [cu (CHR 0x27)] @ js '', ''
         @ [cu (CHR 0x27)] @ js ''b.css'' @ [cu (CHR 0x27)] @ js '']'')
     = Inr (js ''styles: ['' @ [cu (CHR 0x22)] @ js ''body{}'' @ [cu (CHR 0x22)] @ [cu CHR '','', 0x0A]
         @ [cu (CHR 0x22)] @ js ''a{}'' @ [cu (CHR 0x22)] @ js '']'') \<and>
   inlineStyle js_eval ex_reader ex_resolver (js ''styleUrls: []'') = Inr (js ''styles: []'') \<and>
   inlineStyle js_eval ex_reader ex_resolver
      (js ''styleUrls: ['' @ [cu (CHR 0x27)] @ js ''c.css'' @ [cu (CHR 0x27)] @ js '']'')
     = Inr (js ''styles: ['' @ [cu (CHR 0x22)]
         @ js ''a:after{content:'' @ [cu (CHR 0x5C), cu (CHR 0x22)] @ js ''x''
         @ [cu (CHR 0x5C), cu (CHR 0x22)] @ js ''}'' @ [cu (CHR 0x22)] @ js '']'') \<and>
   \<not> raw_quote (js ''a:after{content:'' @ [cu (CHR 0x5C), cu (CHR 0x22)] @ js ''x''
       @ [cu (CHR 0x5C), cu (CHR 0x22)] @ js ''}'')"
proof -
  have post: "inlineStyle js_eval ex_reader ex_resolver [] = Inr []"
    by (simp add: inlineStyle_unfold run_simps)
  have ev: "js_eval ([cu (CHR 0x5B)] @ ([cu (CHR 0x27)] @ js ''a.css'' @ [cu (CHR 0x27)] @ js '', ''
     @ [cu (CHR 0x27)] @ js ''b.css'' @ [cu (CHR 0x27)]) @ [cu (CHR 0x5D)]) = Inr [js ''a.css'', js ''b.css'']"
    by (simp add: js_eval_def js_def cu_def is_space_def)
  have ev0: "js_eval ([cu (CHR 0x5B)] @ [] @ [cu (CHR 0x5D)]) = Inr []"
    by (simp add: js_eval_def js_def cu_def is_space_def)
  have evc: "js_eval ([cu (CHR 0x5B)] @ ([cu (CHR 0x27)] @ js ''c.css'' @ [cu (CHR 0x27)]) @ [cu (CHR 0x5D)])
      = Inr [js ''c.css'']"
    by (simp add: js_eval_def js_def cu_def is_space_def)
  have files: "list_all2
       (\<lambda>url content. \<exists>file. ex_resolver url = Inr file \<and> ex_reader file = Inr content)
       [js ''a.css'', js ''b.css''] [js ''body{}'', js ''a{}'']"
    by (simp add: ex_resolver_def ex_reader_def js_def cu_def)
  have filesc: "list_all2
       (\<lambda>url content. \<exists>file. ex_resolver url = Inr file \<and> ex_reader file = Inr content)
       [js ''c.css'']
       [js ''a:after{content:'' @ [cu (CHR 0x22)] @ js ''x'' @ [cu (CHR 0x22)] @ js ''}'']"
    by (simp add: ex_resolver_def ex_reader_def js_def cu_def)
  have ws: "list_all is_space (js '' '')" by (simp add: js_def cu_def is_space_def)
  have b: "cu (CHR 0x5D) \<notin> set ([cu (CHR 0x27)] @ js ''a.css'' @ [cu (CHR 0x27)] @ js '', ''
     @ [cu (CHR 0x27)] @ js ''b.css'' @ [cu (CHR 0x27)])"
    by (simp add: js_def cu_def)
  have bc: "cu (CHR 0x5D) \<notin> set ([cu (CHR 0x27)] @ js ''c.css'' @ [cu (CHR 0x27)])"
    by (simp add: js_def cu_def)
  have q: "\<not> quote_after_backslash
      (js ''a:after{content:'' @ [cu (CHR 0x22)] @ js ''x'' @ [cu (CHR 0x22)] @ js ''}'')"
    by (simp add: js_def cu_def)
  note t1 = inlineStyle_declaration [where ws = "js '' ''"
      and body = "[cu (CHR 0x27)] @ js ''a.css'' @ [cu (CHR 0x27)] @ js '', ''
         @ [cu (CHR 0x27)] @ js ''b.css'' @ [cu (CHR 0x27)]"
      and ev = js_eval and urls = "[js ''a.css'', js ''b.css'']"
      and urlResolver = ex_resolver and readFileSync = ex_reader
      and contents = "[js ''body{}'', js ''a{}'']" and pre = "[]" and post = "[]"]
  note t2 = inlineStyle_declaration [where ws = "js '' ''" and body = "[]"
      and ev = js_eval and urls = "[]"
      and urlResolver = ex_resolver and readFileSync = ex_reader
      and contents = "[]" and pre = "[]" and post = "[]"]
  note t3 = inlineStyle_declaration [where ws = "js '' ''"
      and body = "[cu (CHR 0x27)] @ js ''c.css'' @ [cu (CHR 0x27)]"
      and ev = js_eval and urls = "[js ''c.css'']"
      and urlResolver = ex_resolver and readFileSync = ex_reader
      and contents = "[js ''a:after{content:'' @ [cu (CHR 0x22)] @ js ''x'' @ [cu (CHR 0x22)] @ js ''}'']"
      and pre = "[]" and post = "[]"]
  have 1: "inlineStyle js_eval ex_reader ex_resolver
       ([] @ js ''styleUrls:'' @ js '' '' @ [cu (CHR 0x5B)] @ ([cu (CHR 0x27)] @ js ''a.css'' @ [cu (CHR 0x27)] @ js '', ''
     @ [cu (CHR 0x27)] @ js ''b.css'' @ [cu (CHR 0x27)]) @ [cu (CHR 0x5D)] @ [])
     = Inr (js ''styles: ['' @ [cu (CHR 0x22)] @ js ''body{}'' @ [cu (CHR 0x22)] @ [cu CHR '','', 0x0A]
         @ [cu (CHR 0x22)] @ js ''a{}'' @ [cu (CHR 0x22)] @ js '']'')"
    using t1 [OF ws b ev files] post by (simp add: run_simps)
  have 2: "inlineStyle js_eval ex_reader ex_resolver
       ([] @ js ''styleUrls:'' @ js '' '' @ [cu (CHR 0x5B)] @ [] @ [cu (CHR 0x5D)] @ [])
     = Inr (js ''styles: []'')"
    using t2 [OF ws _ ev0] post by (simp add: run_simps)
  have 3: "inlineStyle js_eval ex_reader ex_resolver
       ([] @ js ''styleUrls:'' @ js '' '' @ [cu (CHR 0x5B)] @ ([cu (CHR 0x27)] @ js ''c.css'' @ [cu (CHR 0x27)])
          @ [cu (CHR 0x5D)] @ [])
     = Inr (js ''styles: ['' @ [cu (CHR 0x22)]
         @ js ''a:after{content:'' @ [cu (CHR 0x5C), cu (CHR 0x22)] @ js ''x''
         @ [cu (CHR 0x5C), cu (CHR 0x22)] @ js ''}'' @ [cu (CHR 0x22)] @ js '']'')"
    using t3 [OF ws bc evc filesc] post by (simp add: run_simps)
  have 4: "\<not> raw_quote (escape_quotes (collapse_breaks
      (js ''a:after{content:'' @ [cu (CHR 0x22)] @ js ''x'' @ [cu (CHR 0x22)] @ js ''}'')))"
    using t3 [OF ws bc evc filesc] q by simp
  have 5: "escape_quotes (collapse_breaks
      (js ''a:after{content:'' @ [cu (CHR 0x22)] @ js ''x'' @ [cu (CHR 0x22)] @ js ''}''))
    = js ''a:after{content:'' @ [cu (CHR 0x5C), cu (CHR 0x22)] @ js ''x''
       @ [cu (CHR 0x5C), cu (CHR 0x22)] @ js ''}''"
    by (simp add: run_simps)
  show ?thesis using 1 2 3 4 unfolding 5 by (simp add: js_def)
qed

text \<open>
  C2 as stated fails for a URL with a closing bracket in it: the expression stops at the
  first closing bracket, and \<^verbatim>\<open>eval\<close> is given \<^verbatim>\<open>['a]\<close>, which is not an array literal
  (JavaScript throws a \<^verbatim>\<open>SyntaxError\<close>). It fails as well for a content with a double
  quote after a backslash: \<^verbatim>\<open>a\"b\<close> is listed as \<^verbatim>\<open>"a\\"b"\<close>, a literal that ends at its
  second double quote.
\<close>

theorem inlineStyle_bracket_counterexample:
  "inlineStyle js_eval ex_reader ex_resolver
      (js ''styleUrls: ['' @ [cu (CHR 0x27)] @ js ''a].css'' @ [cu (CHR 0x27)] @ js '']'')
     = Inl EvalFailed \<and>
   inlineStyle js_eval ex_reader ex_resolver
      (js ''styleUrls: ['' @ [cu (CHR 0x27)] @ js ''a].css'' @ [cu (CHR 0x27)] @ js '']'')
     \<noteq> Inr (js ''styles: ['' @ [cu (CHR 0x22)] @ js ''body{}'' @ [cu (CHR 0x22)] @ js '']'') \<and>
   inlineStyle js_eval ex_reader ex_resolver
      (js ''styleUrls: ['' @ [cu (CHR 0x27)] @ js ''d.css'' @ [cu (CHR 0x27)] @ js '']'')
     = Inr (js ''styles: ['' @ [cu (CHR 0x22)]
         @ js ''a'' @ [cu (CHR 0x5C), cu (CHR 0x5C), cu (CHR 0x22)] @ js ''b'' @ [cu (CHR 0x22)]
         @ js '']'') \<and>
   raw_quote (js ''a'' @ [cu (CHR 0x5C), cu (CHR 0x5C), cu (CHR 0x22)] @ js ''b'')"
  by (simp add: inlineStyle_unfold run_simps style_simps ex_reader_def ex_resolver_def)

section \<open>Claims about inlineResourcesFromString\<close>

text \<open>
  C5. On a content in which none of the three expressions matches anywhere,
  \<^verbatim>\<open>inlineResourcesFromString\<close> returns the content as it is; so a second run on the output
  of such a run returns the same output.
\<close>

theorem inlineResourcesFromString_no_match:
  assumes "no_match templateUrl_re content"
    and "no_match styleUrls_re content"
    and "no_match moduleId_re content"
  shows "inlineResourcesFromString ev readFileSync urlResolver content = Inr content \<and>
    (case inlineResourcesFromString ev readFileSync urlResolver content of
       Inl e \<Rightarrow> False
     | Inr out \<Rightarrow> inlineResourcesFromString ev readFileSync urlResolver out = Inr out)"
proof -
  have "inlineResourcesFromString ev readFileSync urlResolver content = Inr content"
    using assms
    by (simp add: inlineResourcesFromString_def inlineTemplate_def inlineStyle_def
        removeModuleId_def replace_fn_no_match replace_str_no_match)
  then show ?thesis by simp
qed

theorem inlineResourcesFromString_no_match_witness:
  "no_match templateUrl_re (js ''var template = 1;'') \<and>
   no_match styleUrls_re (js ''var template = 1;'') \<and>
   no_match moduleId_re (js ''var template = 1;'') \<and>
   inlineResourcesFromString js_eval (\<lambda>p. Inl SystemError) (\<lambda>u. Inr u) (js ''var template = 1;'')
     = Inr (js ''var template = 1;'')"
proof -
  have 1: "no_match templateUrl_re (js ''var template = 1;'')"
    by (simp add: no_match_def match_simps)
  have 2: "no_match styleUrls_re (js ''var template = 1;'')"
    by (simp add: no_match_def match_simps)
  have 3: "no_match moduleId_re (js ''var template = 1;'')"
    by (simp add: no_match_def match_simps)
  show ?thesis
    using 1 2 3 inlineResourcesFromString_no_match [OF 1 2 3, of js_eval "\<lambda>p. Inl SystemError" "\<lambda>u. Inr u"]
    by simp
qed

section \<open>Claims about the configuration\<close>




text \<open>
  C6, as the code has it. When for one of the paths that \<^verbatim>\<open>readTsconfig\<close> requires, the
  path of the configuration or one reached through \<^verbatim>\<open>extends\<close>, the loader can supply no
  document, because it has kept none and finds no file or cannot load the file it
  finds, then \<^verbatim>\<open>readTsconfig\<close> throws the error of the loader, \<^verbatim>\<open>inlineResources\<close> throws it
  to its caller, and no file of the compilation has been read, written or reported.
\<close>

theorem readTsconfig_failure:
  assumes "\<exists>f\<in>set (extends_chain depth env w (resolve env (script_dir env) tsconfigPath)).
      lookup env w f = None"
  shows "\<exists>e. loader_error w e \<and>
    fst (readTsconfig depth env (resolve env (script_dir env) tsconfigPath) w) = Inl e \<and>
    fst (inlineResources ev depth env tsconfigPath w) = Inl e \<and>
    files (snd (inlineResources ev depth env tsconfigPath w)) = files w \<and>
    console (snd (inlineResources ev depth env tsconfigPath w)) = console w"
proof -
  obtain e where e: "fst (readTsconfig depth env (resolve env (script_dir env) tsconfigPath) w) = Inl e"
    "loader_error w e"
    using readTsconfig_missing [OF assms] by blast
  show ?thesis
    using e inlineResources_config_error [OF e(1), of ev] by blast
qed

text \<open>
  A configuration that extends a document that is missing, and one that extends a
  document that is not JSON.
\<close>

theorem readTsconfig_failure_witness:
  "lookup posix ex_world (js ''/p/app/missing.json'') = None \<and>
   js ''/p/app/missing.json'' \<in> set (extends_chain 3 posix ex_world (resolve posix (script_dir posix) (js ''orphan.json''))) \<and>
   fst (inlineResources js_eval 3 posix (js ''orphan.json'') ex_world) = Inl ModuleNotFound \<and>
   files (snd (inlineResources js_eval 3 posix (js ''orphan.json'') ex_world)) = files ex_world \<and>
   console (snd (inlineResources js_eval 3 posix (js ''orphan.json'') ex_world)) = console ex_world \<and>
   lookup posix ex_world (js ''/p/bad.json'') = None \<and>
   js ''/p/bad.json'' \<in> set (extends_chain 3 posix ex_world (resolve posix (script_dir posix) (js ''heir.json''))) \<and>
   fst (inlineResources js_eval 3 posix (js ''heir.json'') ex_world) = Inl SyntaxError \<and>
   files (snd (inlineResources js_eval 3 posix (js ''heir.json'') ex_world)) = files ex_world \<and>
   console (snd (inlineResources js_eval 3 posix (js ''heir.json'') ex_world)) = console ex_world"
proof -
  have 1: "lookup posix ex_world (js ''/p/app/missing.json'') = None"
    by code_simp
  have 2: "js ''/p/app/missing.json'' \<in> set (extends_chain 3 posix ex_world (resolve posix (script_dir posix) (js ''orphan.json'')))"
    by code_simp
  have 3: "fst (inlineResources js_eval 3 posix (js ''orphan.json'') ex_world) = Inl ModuleNotFound"
    by code_simp
  have 4: "lookup posix ex_world (js ''/p/bad.json'') = None"
    by code_simp
  have 5: "js ''/p/bad.json'' \<in> set (extends_chain 3 posix ex_world (resolve posix (script_dir posix) (js ''heir.json'')))"
    by code_simp
  have 6: "fst (inlineResources js_eval 3 posix (js ''heir.json'') ex_world) = Inl SyntaxError"
    by code_simp
  have a: "\<exists>f\<in>set (extends_chain 3 posix ex_world (resolve posix (script_dir posix) (js ''orphan.json''))).
      lookup posix ex_world f = None"
    using 1 2 by blast
  have b: "\<exists>f\<in>set (extends_chain 3 posix ex_world (resolve posix (script_dir posix) (js ''heir.json''))).
      lookup posix ex_world f = None"
    using 4 5 by blast
  show ?thesis
    using 1 2 3 4 5 6 readTsconfig_failure [OF a, of js_eval] readTsconfig_failure [OF b, of js_eval]
    by auto
qed

text \<open>
  C6 as stated fails in two ways. A document that the loader has kept is not looked for
  again: after \<^verbatim>\<open>/p/app/tsconfig.json\<close> has been resolved once, then deleted, and the
  document it extends overwritten with a text that is not JSON, a second run in the same
  process resolves the configuration as before and rewrites the compiled file. And the
  loader does more than parse the file of the path: \<^verbatim>\<open>/p/app/tsconfig3.json\<close> extends
  \<^verbatim>\<open>../base\<close>, there is no file \<^verbatim>\<open>/p/base\<close>, and the loader finds \<^verbatim>\<open>/p/base.json\<close>; and
  \<^verbatim>\<open>/p/app/config.js\<close>, a script and not structured data, is run and resolves to what it
  exports.
\<close>

theorem readTsconfig_loader_counterexample:
  "disk ((snd (readTsconfig 3 posix (js ''/p/app/tsconfig.json'') ex_world))\<lparr>disk := ex_disk_gone\<rparr>)
       (js ''/p/app/tsconfig.json'') = NoFile \<and>
   disk ((snd (readTsconfig 3 posix (js ''/p/app/tsconfig.json'') ex_world))\<lparr>disk := ex_disk_gone\<rparr>)
       (js ''/p/base.json'') = Fails SyntaxError \<and>
   option_of (readTsconfig 3 posix (js ''/p/app/tsconfig.json'')
       ((snd (readTsconfig 3 posix (js ''/p/app/tsconfig.json'') ex_world))\<lparr>disk := ex_disk_gone\<rparr>))
     (js ''outDir'') = Inr (Some (JStr (js ''/p/app/dist''))) \<and>
   fst (inlineResources js_eval 3 posix (js ''tsconfig.json'')
       ((snd (readTsconfig 3 posix (js ''/p/app/tsconfig.json'') ex_world))\<lparr>disk := ex_disk_gone\<rparr>))
     = Inr () \<and>
   files (snd (inlineResources js_eval 3 posix (js ''tsconfig.json'')
       ((snd (readTsconfig 3 posix (js ''/p/app/tsconfig.json'') ex_world))\<lparr>disk := ex_disk_gone\<rparr>)))
     (js ''/p/app/dist/b.js'') = Inr (js ''x = {y: 1}'') \<and>
   disk ex_world (js ''/p/base'') = NoFile \<and>
   option_of (readTsconfig 3 posix (js ''/p/app/tsconfig3.json'') ex_world) (js ''rootDir'')
     = Inr (Some (JStr (js ''/p/src''))) \<and>
   option_of (readTsconfig 3 posix (js ''/p/app/config.js'') ex_world) (js ''outDir'')
     = Inr (Some (JStr (js ''/p/app/lib'')))"
proof -
  have 1: "disk ((snd (readTsconfig 3 posix (js ''/p/app/tsconfig.json'') ex_world))\<lparr>disk := ex_disk_gone\<rparr>)
       (js ''/p/app/tsconfig.json'') = NoFile"
    by (simp add: ex_disk_gone_def)
  have 2: "disk ((snd (readTsconfig 3 posix (js ''/p/app/tsconfig.json'') ex_world))\<lparr>disk := ex_disk_gone\<rparr>)
       (js ''/p/base.json'') = Fails SyntaxError"
    by (simp add: ex_disk_gone_def js_def cu_def)
  have 3: "option_of (readTsconfig 3 posix (js ''/p/app/tsconfig.json'')
       ((snd (readTsconfig 3 posix (js ''/p/app/tsconfig.json'') ex_world))\<lparr>disk := ex_disk_gone\<rparr>))
     (js ''outDir'') = Inr (Some (JStr (js ''/p/app/dist'')))"
    by code_simp
  have 4: "fst (inlineResources js_eval 3 posix (js ''tsconfig.json'')
       ((snd (readTsconfig 3 posix (js ''/p/app/tsconfig.json'') ex_world))\<lparr>disk := ex_disk_gone\<rparr>))
     = Inr ()"
    by code_simp
  have 5: "files (snd (inlineResources js_eval 3 posix (js ''tsconfig.json'')
       ((snd (readTsconfig 3 posix (js ''/p/app/tsconfig.json'') ex_world))\<lparr>disk := ex_disk_gone\<rparr>)))
     (js ''/p/app/dist/b.js'') = Inr (js ''x = {y: 1}'')"
    by code_simp
  have 6: "disk ex_world (js ''/p/base'') = NoFile"
    by (simp add: ex_world_def ex_disk_def js_def cu_def)
  have 7: "option_of (readTsconfig 3 posix (js ''/p/app/tsconfig3.json'') ex_world) (js ''rootDir'')
     = Inr (Some (JStr (js ''/p/src'')))"
    by code_simp
  have 8: "option_of (readTsconfig 3 posix (js ''/p/app/config.js'') ex_world) (js ''outDir'')
     = Inr (Some (JStr (js ''/p/app/lib'')))"
    by code_simp
  show ?thesis using 1 2 3 4 5 6 7 8 by simp
qed




section \<open>Claims about inlineResources\<close>

text \<open>
  C7. When the unit of work of one file fails, in reading the file, in inlining or in
  writing, the exception is caught and printed, the promise that \<^verbatim>\<open>inlineResources\<close>
  returns is fulfilled all the same, and the files are at the end what they would be had
  the failed file not been in the list: the units of work of the other files run as they
  would without it.
\<close>

theorem inlineResources_isolation:
  assumes cfg: "fst (readTsconfig depth env (resolve env (script_dir env) tsconfigPath) w) = Inr cfg"
    and out: "options cfg (js ''outDir'') = Some (JStr out)"
    and lst: "glob_sync env (join3 env out (js ''**'') (js ''*.js''))
        (snd (readTsconfig depth env (resolve env (script_dir env) tsconfigPath) w))
      = before @ filePath # after"
    and fail: "unit_error ev env (options cfg (js ''rootDir'')) out
        (foldl (process_file ev env (options cfg (js ''rootDir'')) out)
           (snd (readTsconfig depth env (resolve env (script_dir env) tsconfigPath) w)) before)
        filePath = Some err"
  shows "fst (inlineResources ev depth env tsconfigPath w) = Inr () \<and>
    err \<in> set (console (snd (inlineResources ev depth env tsconfigPath w))) \<and>
    files (snd (inlineResources ev depth env tsconfigPath w)) =
      files (foldl (process_file ev env (options cfg (js ''rootDir'')) out)
        (snd (readTsconfig depth env (resolve env (script_dir env) tsconfigPath) w)) (before @ after))"
proof -
  let ?pf = "process_file ev env (options cfg (js ''rootDir'')) out"
  obtain w1 where r: "readTsconfig depth env (resolve env (script_dir env) tsconfigPath) w = (Inr cfg, w1)"
    using cfg by (cases "readTsconfig depth env (resolve env (script_dir env) tsconfigPath) w") auto
  let ?wb = "foldl ?pf w1 before"
  have run: "inlineResources ev depth env tsconfigPath w = (Inr (), foldl ?pf w1 (before @ filePath # after))"
    using r out lst by (simp add: inlineResources_def Let_def)
  have step: "?pf ?wb filePath = ?wb\<lparr>console := console ?wb @ [err]\<rparr>"
    using fail r by (simp add: process_file_failed)
  have final: "foldl ?pf w1 (before @ filePath # after) = foldl ?pf (?wb\<lparr>console := console ?wb @ [err]\<rparr>) after"
    using step by simp
  have "same_files ?wb (?wb\<lparr>console := console ?wb @ [err]\<rparr>)"
    by (simp add: same_files_def)
  then have "same_files (foldl ?pf ?wb after) (foldl ?pf (?wb\<lparr>console := console ?wb @ [err]\<rparr>) after)"
    by (rule foldl_same_files)
  then have f: "files (foldl ?pf w1 (before @ filePath # after)) = files (foldl ?pf w1 (before @ after))"
    unfolding final by (simp add: same_files_def)
  have "err \<in> set (console (?wb\<lparr>console := console ?wb @ [err]\<rparr>))" by simp
  then have e: "err \<in> set (console (foldl ?pf w1 (before @ filePath # after)))"
    unfolding final using console_foldl by blast
  show ?thesis using run r f e by simp
qed

theorem inlineResources_isolation_witness:
  "fst (inlineResources js_eval 3 posix (js ''tsconfig.json'') ex_world) = Inr () \<and>
   SystemError \<in> set (console (snd (inlineResources js_eval 3 posix (js ''tsconfig.json'') ex_world))) \<and>
   files (snd (inlineResources js_eval 3 posix (js ''tsconfig.json'') ex_world)) (js ''/p/app/dist/b.js'')
     = Inr (js ''x = {y: 1}'')"
proof -
  let ?r = "readTsconfig 3 posix (resolve posix (script_dir posix) (js ''tsconfig.json'')) ex_world"
  have "case fst ?r of Inl e \<Rightarrow> False
    | Inr d \<Rightarrow> options d (js ''outDir'') = Some (JStr (js ''/p/app/dist''))"
    by code_simp
  then obtain cfg where cfg: "fst ?r = Inr cfg"
    and out: "options cfg (js ''outDir'') = Some (JStr (js ''/p/app/dist''))"
    by (auto split: sum.splits)
  have lst: "glob_sync posix (join3 posix (js ''/p/app/dist'') (js ''**'') (js ''*.js'')) (snd ?r)
      = [] @ js ''/p/app/dist/a.js'' # [js ''/p/app/dist/b.js'']"
    by (simp add: posix_simps ex_glob_def)
  have "grows ex_world (snd ?r)" by (rule grows_readTsconfig)
  then have "files (snd ?r) = ex_files" by (simp add: grows_def ex_world_def)
  then have fail: "unit_error js_eval posix (options cfg (js ''rootDir'')) (js ''/p/app/dist'')
        (foldl (process_file js_eval posix (options cfg (js ''rootDir'')) (js ''/p/app/dist'')) (snd ?r) [])
        (js ''/p/app/dist/a.js'') = Some SystemError"
    by (simp add: unit_error_def ex_files_def js_def cu_def)
  have b: "files (snd (inlineResources js_eval 3 posix (js ''tsconfig.json'') ex_world)) (js ''/p/app/dist/b.js'')
     = Inr (js ''x = {y: 1}'')"
    by code_simp
  show ?thesis
    using b inlineResources_isolation [OF cfg out lst fail] by simp
qed

end
